theory Spec2Isabelle
  imports Complex_Main "HOL-Library.Word"
begin

unbundle bit_operations_syntax

section \<open>Data model\<close>

text \<open>
  A JavaScript string is a sequence of UTF-16 code units, a \<open>Buffer\<close> a sequence of
  bytes. \<open>ustr\<close> writes an ASCII literal of the source as a JavaScript string.
\<close>

type_synonym byte = "8 word"
type_synonym jschar = "16 word"
type_synonym jstring = "jschar list"

definition ustr :: "string \<Rightarrow> jstring" where
  "ustr s = map (\<lambda>c. of_char c) s"

text \<open>
  The values \<open>JSON.parse\<close> and \<open>response.json()\<close> produce. A number is kept as the
  exact rational value of its literal (JavaScript rounds it to a binary64 double);
  an object is the list of its members in insertion order, each key once.
  \<open>undefined\<close> (an absent property) is \<open>None\<close> of \<open>json option\<close>.
\<close>

datatype json =
    JNull
  | JBool bool
  | JNum rat
  | JStr jstring
  | JArr "json list"
  | JObj "(jstring \<times> json) list"

text \<open>JavaScript truthiness, as \<open>!x\<close>, \<open>x && y\<close> and \<open>x || y\<close> test it.\<close>

fun truthy :: "json \<Rightarrow> bool" where
  "truthy JNull = False"
| "truthy (JBool b) = b"
| "truthy (JNum n) = (n \<noteq> 0)"
| "truthy (JStr s) = (s \<noteq> [])"
| "truthy (JArr xs) = True"
| "truthy (JObj kvs) = True"

fun truthy_opt :: "json option \<Rightarrow> bool" where
  "truthy_opt None = False"
| "truthy_opt (Some v) = truthy v"

text \<open>
  Property access \<open>payload.code\<close>, \<open>payload.data\<close> on a parsed value: an own member
  of an object; \<open>undefined\<close> on an array, a string, a number or a boolean (the source
  reads no other property name, and never reads a property of \<open>null\<close>).
\<close>

fun member :: "json \<Rightarrow> jstring \<Rightarrow> json option" where
  "member (JObj kvs) k = map_of kvs k"
| "member v k = None"

text \<open>
  The errors of the source and of the runtime calls it makes. \<open>EmptyCiphertext\<close> is
  \<open>Error("Empty ciphertext")\<close>; \<open>UnexpectedResponse p\<close> is the key endpoint's
  \<open>Error("securityKey: unexpected response: " + JSON.stringify(p))\<close>;
  \<open>EmptyResponse status url\<close> is the extractor's \<open>Error("Empty/invalid response
  (HTTP status) from url")\<close>; \<open>DecryptionError\<close> is what \<open>decipher.final()\<close> throws
  (wrong final block length, bad decrypt); \<open>SyntaxError\<close> is what \<open>JSON.parse\<close> and
  \<open>response.json()\<close> throw on text that is not JSON; \<open>TypeError\<close> is the runtime's
  argument-type error; \<open>NetworkError\<close> is a rejected \<open>fetch\<close> or body read.
\<close>

datatype error =
    EmptyCiphertext
  | UnexpectedResponse json
  | EmptyResponse int jstring
  | DecryptionError
  | SyntaxError
  | TypeError
  | NetworkError

text \<open>
  The module's configuration (\<open>process.env.CASTLE_*\<close> with the defaults of the source)
  and the one runtime conversion the model leaves open: \<open>Buffer.from(x, "base64")\<close> of
  an array or object \<open>x\<close> (the runtime's array-like conversion). \<open>default_env\<close> puts
  a conversion that always fails in its place, which is not the runtime's (an array
  of bytes converts); every statement below that names \<open>default_env\<close> derives its key
  from a string, where the conversion is not called.
\<close>

record env =
  BASE :: jstring
  CHANNEL :: jstring
  CLIENT :: jstring
  LANG :: jstring
  SUFFIX :: jstring
  from_array_like :: "json \<Rightarrow> error + byte list"

definition default_env :: env where
  "default_env = \<lparr> BASE = ustr ''https://api.fstcy.com'', CHANNEL = ustr ''IndiaA'',
     CLIENT = ustr ''1'', LANG = ustr ''en-US'', SUFFIX = ustr ''T!BgJB'',
     from_array_like = (\<lambda>x. Inl TypeError) \<rparr>"

section \<open>Buffer.from(string, "base64")\<close>

text \<open>
  The runtime's decoder is lenient: it reads the low byte of every code unit, takes
  the standard and the URL-safe alphabet, skips every other character, stops at the
  first \<open>=\<close>, and drops the bits of an incomplete last byte. It never throws on a string.
\<close>

definition unbase64 :: "byte \<Rightarrow> nat option" where
  "unbase64 c = (let n = unat c in
     if 65 \<le> n \<and> n \<le> 90 then Some (n - 65)
     else if 97 \<le> n \<and> n \<le> 122 then Some (n - 71)
     else if 48 \<le> n \<and> n \<le> 57 then Some (n + 4)
     else if n = 43 \<or> n = 45 then Some 62
     else if n = 47 \<or> n = 95 then Some 63
     else None)"

fun sextets :: "jstring \<Rightarrow> nat list" where
  "sextets [] = []"
| "sextets (c # cs) =
     (if (ucast c :: byte) = 0x3D then []
      else case unbase64 (ucast c) of
        Some v \<Rightarrow> v # sextets cs
      | None \<Rightarrow> sextets cs)"

fun b64_pack :: "nat list \<Rightarrow> byte list" where
  "b64_pack (a # b # c # d # rest) =
     [of_nat (a * 4 + b div 16), of_nat ((b mod 16) * 16 + c div 4), of_nat ((c mod 4) * 64 + d)]
       @ b64_pack rest"
| "b64_pack [a, b, c] = [of_nat (a * 4 + b div 16), of_nat ((b mod 16) * 16 + c div 4)]"
| "b64_pack [a, b] = [of_nat (a * 4 + b div 16)]"
| "b64_pack _ = []"

definition base64_decode :: "jstring \<Rightarrow> byte list" where
  "base64_decode s = b64_pack (sextets s)"

text \<open>\<open>Buffer.from(x, "base64")\<close> for a value \<open>x\<close>: a string is decoded; \<open>null\<close>, a
  boolean or a number is a \<open>TypeError\<close>.\<close>

fun Buffer_from_base64 :: "env \<Rightarrow> json \<Rightarrow> error + byte list" where
  "Buffer_from_base64 e (JStr s) = Inr (base64_decode s)"
| "Buffer_from_base64 e JNull = Inl TypeError"
| "Buffer_from_base64 e (JBool b) = Inl TypeError"
| "Buffer_from_base64 e (JNum n) = Inl TypeError"
| "Buffer_from_base64 e v = from_array_like e v"

text \<open>\<open>Buffer.from(s, "ascii")\<close>: the low byte of every code unit.\<close>

definition ascii_bytes :: "jstring \<Rightarrow> byte list" where
  "ascii_bytes s = map ucast s"

section \<open>Key derivation\<close>

definition deriveKeyFromSec :: "env \<Rightarrow> json \<Rightarrow> error + byte list" where
  "deriveKeyFromSec e secB64 =
     (case Buffer_from_base64 e secB64 of
        Inl err \<Rightarrow> Inl err
      | Inr apiKey \<Rightarrow>
          let keyMaterial = apiKey @ ascii_bytes (SUFFIX e) in
          if length keyMaterial < 16
            then Inr (keyMaterial @ replicate (16 - length keyMaterial) 0)
          else if length keyMaterial > 16
            then Inr (take 16 keyMaterial)
          else Inr keyMaterial)"

section \<open>crypto.createDecipheriv("aes-128-cbc", key, iv)\<close>

subsection \<open>The AES-128 inverse cipher (FIPS 197)\<close>

text \<open>
  A block and a round key are lists of 16 bytes, in the order of the input bytes
  (column by column of the state). The functions leave a list of another length
  as it is; the source only ever passes 16-byte keys and whole blocks.
\<close>

definition sbox_table :: "byte list" where
  "sbox_table = [
     0x63, 0x7C, 0x77, 0x7B, 0xF2, 0x6B, 0x6F, 0xC5, 0x30, 0x01, 0x67, 0x2B, 0xFE, 0xD7, 0xAB, 0x76,
     0xCA, 0x82, 0xC9, 0x7D, 0xFA, 0x59, 0x47, 0xF0, 0xAD, 0xD4, 0xA2, 0xAF, 0x9C, 0xA4, 0x72, 0xC0,
     0xB7, 0xFD, 0x93, 0x26, 0x36, 0x3F, 0xF7, 0xCC, 0x34, 0xA5, 0xE5, 0xF1, 0x71, 0xD8, 0x31, 0x15,
     0x04, 0xC7, 0x23, 0xC3, 0x18, 0x96, 0x05, 0x9A, 0x07, 0x12, 0x80, 0xE2, 0xEB, 0x27, 0xB2, 0x75,
     0x09, 0x83, 0x2C, 0x1A, 0x1B, 0x6E, 0x5A, 0xA0, 0x52, 0x3B, 0xD6, 0xB3, 0x29, 0xE3, 0x2F, 0x84,
     0x53, 0xD1, 0x00, 0xED, 0x20, 0xFC, 0xB1, 0x5B, 0x6A, 0xCB, 0xBE, 0x39, 0x4A, 0x4C, 0x58, 0xCF,
     0xD0, 0xEF, 0xAA, 0xFB, 0x43, 0x4D, 0x33, 0x85, 0x45, 0xF9, 0x02, 0x7F, 0x50, 0x3C, 0x9F, 0xA8,
     0x51, 0xA3, 0x40, 0x8F, 0x92, 0x9D, 0x38, 0xF5, 0xBC, 0xB6, 0xDA, 0x21, 0x10, 0xFF, 0xF3, 0xD2,
     0xCD, 0x0C, 0x13, 0xEC, 0x5F, 0x97, 0x44, 0x17, 0xC4, 0xA7, 0x7E, 0x3D, 0x64, 0x5D, 0x19, 0x73,
     0x60, 0x81, 0x4F, 0xDC, 0x22, 0x2A, 0x90, 0x88, 0x46, 0xEE, 0xB8, 0x14, 0xDE, 0x5E, 0x0B, 0xDB,
     0xE0, 0x32, 0x3A, 0x0A, 0x49, 0x06, 0x24, 0x5C, 0xC2, 0xD3, 0xAC, 0x62, 0x91, 0x95, 0xE4, 0x79,
     0xE7, 0xC8, 0x37, 0x6D, 0x8D, 0xD5, 0x4E, 0xA9, 0x6C, 0x56, 0xF4, 0xEA, 0x65, 0x7A, 0xAE, 0x08,
     0xBA, 0x78, 0x25, 0x2E, 0x1C, 0xA6, 0xB4, 0xC6, 0xE8, 0xDD, 0x74, 0x1F, 0x4B, 0xBD, 0x8B, 0x8A,
     0x70, 0x3E, 0xB5, 0x66, 0x48, 0x03, 0xF6, 0x0E, 0x61, 0x35, 0x57, 0xB9, 0x86, 0xC1, 0x1D, 0x9E,
     0xE1, 0xF8, 0x98, 0x11, 0x69, 0xD9, 0x8E, 0x94, 0x9B, 0x1E, 0x87, 0xE9, 0xCE, 0x55, 0x28, 0xDF,
     0x8C, 0xA1, 0x89, 0x0D, 0xBF, 0xE6, 0x42, 0x68, 0x41, 0x99, 0x2D, 0x0F, 0xB0, 0x54, 0xBB, 0x16]"

definition inv_sbox_table :: "byte list" where
  "inv_sbox_table = [
     0x52, 0x09, 0x6A, 0xD5, 0x30, 0x36, 0xA5, 0x38, 0xBF, 0x40, 0xA3, 0x9E, 0x81, 0xF3, 0xD7, 0xFB,
     0x7C, 0xE3, 0x39, 0x82, 0x9B, 0x2F, 0xFF, 0x87, 0x34, 0x8E, 0x43, 0x44, 0xC4, 0xDE, 0xE9, 0xCB,
     0x54, 0x7B, 0x94, 0x32, 0xA6, 0xC2, 0x23, 0x3D, 0xEE, 0x4C, 0x95, 0x0B, 0x42, 0xFA, 0xC3, 0x4E,
     0x08, 0x2E, 0xA1, 0x66, 0x28, 0xD9, 0x24, 0xB2, 0x76, 0x5B, 0xA2, 0x49, 0x6D, 0x8B, 0xD1, 0x25,
     0x72, 0xF8, 0xF6, 0x64, 0x86, 0x68, 0x98, 0x16, 0xD4, 0xA4, 0x5C, 0xCC, 0x5D, 0x65, 0xB6, 0x92,
     0x6C, 0x70, 0x48, 0x50, 0xFD, 0xED, 0xB9, 0xDA, 0x5E, 0x15, 0x46, 0x57, 0xA7, 0x8D, 0x9D, 0x84,
     0x90, 0xD8, 0xAB, 0x00, 0x8C, 0xBC, 0xD3, 0x0A, 0xF7, 0xE4, 0x58, 0x05, 0xB8, 0xB3, 0x45, 0x06,
     0xD0, 0x2C, 0x1E, 0x8F, 0xCA, 0x3F, 0x0F, 0x02, 0xC1, 0xAF, 0xBD, 0x03, 0x01, 0x13, 0x8A, 0x6B,
     0x3A, 0x91, 0x11, 0x41, 0x4F, 0x67, 0xDC, 0xEA, 0x97, 0xF2, 0xCF, 0xCE, 0xF0, 0xB4, 0xE6, 0x73,
     0x96, 0xAC, 0x74, 0x22, 0xE7, 0xAD, 0x35, 0x85, 0xE2, 0xF9, 0x37, 0xE8, 0x1C, 0x75, 0xDF, 0x6E,
     0x47, 0xF1, 0x1A, 0x71, 0x1D, 0x29, 0xC5, 0x89, 0x6F, 0xB7, 0x62, 0x0E, 0xAA, 0x18, 0xBE, 0x1B,
     0xFC, 0x56, 0x3E, 0x4B, 0xC6, 0xD2, 0x79, 0x20, 0x9A, 0xDB, 0xC0, 0xFE, 0x78, 0xCD, 0x5A, 0xF4,
     0x1F, 0xDD, 0xA8, 0x33, 0x88, 0x07, 0xC7, 0x31, 0xB1, 0x12, 0x10, 0x59, 0x27, 0x80, 0xEC, 0x5F,
     0x60, 0x51, 0x7F, 0xA9, 0x19, 0xB5, 0x4A, 0x0D, 0x2D, 0xE5, 0x7A, 0x9F, 0x93, 0xC9, 0x9C, 0xEF,
     0xA0, 0xE0, 0x3B, 0x4D, 0xAE, 0x2A, 0xF5, 0xB0, 0xC8, 0xEB, 0xBB, 0x3C, 0x83, 0x53, 0x99, 0x61,
     0x17, 0x2B, 0x04, 0x7E, 0xBA, 0x77, 0xD6, 0x26, 0xE1, 0x69, 0x14, 0x63, 0x55, 0x21, 0x0C, 0x7D]"

definition SubByte :: "byte \<Rightarrow> byte" where
  "SubByte x = sbox_table ! unat x"

definition InvSubByte :: "byte \<Rightarrow> byte" where
  "InvSubByte x = inv_sbox_table ! unat x"

definition SubBytes :: "byte list \<Rightarrow> byte list" where
  "SubBytes s = map SubByte s"

definition InvSubBytes :: "byte list \<Rightarrow> byte list" where
  "InvSubBytes s = map InvSubByte s"

fun ShiftRows :: "byte list \<Rightarrow> byte list" where
  "ShiftRows [s0, s1, s2, s3, s4, s5, s6, s7, s8, s9, s10, s11, s12, s13, s14, s15] =
     [s0, s5, s10, s15, s4, s9, s14, s3, s8, s13, s2, s7, s12, s1, s6, s11]"
| "ShiftRows s = s"

fun InvShiftRows :: "byte list \<Rightarrow> byte list" where
  "InvShiftRows [s0, s1, s2, s3, s4, s5, s6, s7, s8, s9, s10, s11, s12, s13, s14, s15] =
     [s0, s13, s10, s7, s4, s1, s14, s11, s8, s5, s2, s15, s12, s9, s6, s3]"
| "InvShiftRows s = s"

definition xtime :: "byte \<Rightarrow> byte" where
  "xtime x = (if bit x 7 then push_bit 1 x XOR 0x1B else push_bit 1 x)"

definition MixColumn :: "byte \<Rightarrow> byte \<Rightarrow> byte \<Rightarrow> byte \<Rightarrow> byte list" where
  "MixColumn a b c d =
     [xtime a XOR (xtime b XOR b) XOR c XOR d,
      a XOR xtime b XOR (xtime c XOR c) XOR d,
      a XOR b XOR xtime c XOR (xtime d XOR d),
      (xtime a XOR a) XOR b XOR c XOR xtime d]"

definition mul9 :: "byte \<Rightarrow> byte" where
  "mul9 x = xtime (xtime (xtime x)) XOR x"

definition mul11 :: "byte \<Rightarrow> byte" where
  "mul11 x = xtime (xtime (xtime x)) XOR xtime x XOR x"

definition mul13 :: "byte \<Rightarrow> byte" where
  "mul13 x = xtime (xtime (xtime x)) XOR xtime (xtime x) XOR x"

definition mul14 :: "byte \<Rightarrow> byte" where
  "mul14 x = xtime (xtime (xtime x)) XOR xtime (xtime x) XOR xtime x"

definition InvMixColumn :: "byte \<Rightarrow> byte \<Rightarrow> byte \<Rightarrow> byte \<Rightarrow> byte list" where
  "InvMixColumn a b c d =
     [mul14 a XOR mul11 b XOR mul13 c XOR mul9 d,
      mul9 a XOR mul14 b XOR mul11 c XOR mul13 d,
      mul13 a XOR mul9 b XOR mul14 c XOR mul11 d,
      mul11 a XOR mul13 b XOR mul9 c XOR mul14 d]"

fun MixColumns :: "byte list \<Rightarrow> byte list" where
  "MixColumns [s0, s1, s2, s3, s4, s5, s6, s7, s8, s9, s10, s11, s12, s13, s14, s15] =
     MixColumn s0 s1 s2 s3 @ MixColumn s4 s5 s6 s7 @
     MixColumn s8 s9 s10 s11 @ MixColumn s12 s13 s14 s15"
| "MixColumns s = s"

fun InvMixColumns :: "byte list \<Rightarrow> byte list" where
  "InvMixColumns [s0, s1, s2, s3, s4, s5, s6, s7, s8, s9, s10, s11, s12, s13, s14, s15] =
     InvMixColumn s0 s1 s2 s3 @ InvMixColumn s4 s5 s6 s7 @
     InvMixColumn s8 s9 s10 s11 @ InvMixColumn s12 s13 s14 s15"
| "InvMixColumns s = s"

definition AddRoundKey :: "byte list \<Rightarrow> byte list \<Rightarrow> byte list" where
  "AddRoundKey s k = map2 (XOR) s k"

fun next_round_key :: "byte \<Rightarrow> byte list \<Rightarrow> byte list" where
  "next_round_key rc [k0, k1, k2, k3, k4, k5, k6, k7, k8, k9, k10, k11, k12, k13, k14, k15] =
     (let w0 = map2 (XOR) [k0, k1, k2, k3]
                 [SubByte k13 XOR rc, SubByte k14, SubByte k15, SubByte k12];
          w1 = map2 (XOR) [k4, k5, k6, k7] w0;
          w2 = map2 (XOR) [k8, k9, k10, k11] w1;
          w3 = map2 (XOR) [k12, k13, k14, k15] w2
      in w0 @ w1 @ w2 @ w3)"
| "next_round_key rc k = k"

fun expand_from :: "byte list \<Rightarrow> byte list \<Rightarrow> byte list list" where
  "expand_from k [] = [k]"
| "expand_from k (rc # rcs) = k # expand_from (next_round_key rc k) rcs"

definition KeyExpansion :: "byte list \<Rightarrow> byte list list" where
  "KeyExpansion key = expand_from key [0x01, 0x02, 0x04, 0x08, 0x10, 0x20, 0x40, 0x80, 0x1B, 0x36]"

definition inv_round :: "byte list \<Rightarrow> byte list \<Rightarrow> byte list" where
  "inv_round k s = InvSubBytes (InvShiftRows (InvMixColumns (AddRoundKey s k)))"

text \<open>The inverse cipher on the round keys \<open>k0, ..., k10\<close>.\<close>

fun InvCipher :: "byte list list \<Rightarrow> byte list \<Rightarrow> byte list" where
  "InvCipher (k0 # ks) c =
     AddRoundKey
       (foldr inv_round (butlast ks) (InvSubBytes (InvShiftRows (AddRoundKey c (last ks))))) k0"
| "InvCipher [] c = c"

subsection \<open>CBC mode and the removal of the PKCS#7 padding\<close>

text \<open>
  \<open>cbc_decrypt n ks prev c\<close> decrypts the first \<open>n\<close> blocks of \<open>c\<close>: every block goes
  through the inverse cipher and is XORed with the ciphertext block before it (the
  IV for the first).
\<close>

fun cbc_decrypt :: "nat \<Rightarrow> byte list list \<Rightarrow> byte list \<Rightarrow> byte list \<Rightarrow> byte list" where
  "cbc_decrypt 0 ks prev c = []"
| "cbc_decrypt (Suc n) ks prev c =
     AddRoundKey (InvCipher ks (take 16 c)) prev @ cbc_decrypt n ks (take 16 c) (drop 16 c)"

text \<open>
  \<open>decipher.final()\<close> (OpenSSL's \<open>EVP_DecryptFinal_ex\<close>) with the last byte \<open>n\<close> of the
  decrypted data: \<open>n\<close> must be between 1 and 16 and the last \<open>n\<close> bytes must all be \<open>n\<close>;
  they are removed. Anything else is the error "bad decrypt".
\<close>

definition pkcs7_unpad :: "byte list \<Rightarrow> error + byte list" where
  "pkcs7_unpad p =
     (let n = unat (last p) in
      if n = 0 \<or> n > 16 \<or> \<not> list_all (\<lambda>b. b = last p) (drop (length p - n) p)
        then Inl DecryptionError
      else Inr (take (length p - n) p))"

text \<open>
  \<open>Buffer.concat([decipher.update(ciphertext), decipher.final()])\<close>: data that is
  empty or not a whole number of blocks is the error "wrong final block length".
\<close>

definition aes_128_cbc_decrypt :: "byte list \<Rightarrow> byte list \<Rightarrow> byte list \<Rightarrow> error + byte list" where
  "aes_128_cbc_decrypt key iv ciphertext =
     (if ciphertext = [] \<or> length ciphertext mod 16 \<noteq> 0 then Inl DecryptionError
      else pkcs7_unpad (cbc_decrypt (length ciphertext div 16) (KeyExpansion key) iv ciphertext))"

section \<open>Buffer.toString("utf-8")\<close>

text \<open>
  The runtime's UTF-8 decoder never throws: a byte sequence that is not well-formed
  UTF-8 gives U+FFFD for each maximal ill-formed part. The result is in UTF-16 code
  units (a surrogate pair for a code point above U+FFFF).

  \<open>utf8_step b bs\<close> decodes the character that starts with the byte \<open>b\<close>, followed by \<open>bs\<close>:
  its code units, and how many bytes of \<open>bs\<close> it takes.
\<close>

definition is_cont :: "byte \<Rightarrow> bool" where
  "is_cont b = (0x80 \<le> b \<and> b \<le> 0xBF)"

definition utf16_units :: "nat \<Rightarrow> jstring" where
  "utf16_units cp =
     (if cp < 0x10000 then [of_nat cp]
      else [of_nat (0xD800 + (cp - 0x10000) div 0x400), of_nat (0xDC00 + (cp - 0x10000) mod 0x400)])"

definition cont_bits :: "byte \<Rightarrow> nat" where
  "cont_bits b = unat b - 0x80"

definition utf8_step :: "byte \<Rightarrow> byte list \<Rightarrow> jstring \<times> nat" where
  "utf8_step b bs =
     (if b < 0x80 then ([ucast b], 0)
      else if 0xC2 \<le> b \<and> b \<le> 0xDF then
        (case bs of
           c1 # _ \<Rightarrow>
             if is_cont c1 then (utf16_units ((unat b - 0xC0) * 64 + cont_bits c1), 1)
             else ([0xFFFD], 0)
         | [] \<Rightarrow> ([0xFFFD], 0))
      else if 0xE0 \<le> b \<and> b \<le> 0xEF then
        (case bs of
           c1 # r1 \<Rightarrow>
             if (if b = 0xE0 then 0xA0 else 0x80) \<le> c1 \<and> c1 \<le> (if b = 0xED then 0x9F else 0xBF) then
               (case r1 of
                  c2 # _ \<Rightarrow>
                    if is_cont c2 then
                      (utf16_units ((unat b - 0xE0) * 4096 + cont_bits c1 * 64 + cont_bits c2), 2)
                    else ([0xFFFD], 1)
                | [] \<Rightarrow> ([0xFFFD], 1))
             else ([0xFFFD], 0)
         | [] \<Rightarrow> ([0xFFFD], 0))
      else if 0xF0 \<le> b \<and> b \<le> 0xF4 then
        (case bs of
           c1 # r1 \<Rightarrow>
             if (if b = 0xF0 then 0x90 else 0x80) \<le> c1 \<and> c1 \<le> (if b = 0xF4 then 0x8F else 0xBF) then
               (case r1 of
                  c2 # r2 \<Rightarrow>
                    if is_cont c2 then
                      (case r2 of
                         c3 # _ \<Rightarrow>
                           if is_cont c3 then
                             (utf16_units ((unat b - 0xF0) * 262144 + cont_bits c1 * 4096
                                + cont_bits c2 * 64 + cont_bits c3), 3)
                           else ([0xFFFD], 2)
                       | [] \<Rightarrow> ([0xFFFD], 2))
                    else ([0xFFFD], 1)
                | [] \<Rightarrow> ([0xFFFD], 1))
             else ([0xFFFD], 0)
         | [] \<Rightarrow> ([0xFFFD], 0))
      else ([0xFFFD], 0))"

function utf8_decode :: "byte list \<Rightarrow> jstring" where
  "utf8_decode [] = []"
| "utf8_decode (b # bs) = fst (utf8_step b bs) @ utf8_decode (drop (snd (utf8_step b bs)) bs)"
  by pat_completeness auto
termination
  by (relation "measure length") auto

section \<open>JSON.parse\<close>

text \<open>
  The JSON grammar of ECMA-404, as \<open>JSON.parse\<close> reads it: whitespace is space, tab,
  line feed and carriage return; a string may hold any code unit from U+0020 on
  except the quote and the backslash, and the escapes \<open>\" \\ \/ \b \f \n \r \t \uXXXX\<close>;
  a number is \<open>-? (0 | [1-9][0-9]*) (.[0-9]+)? ([eE][+-]?[0-9]+)?\<close>; when a key is
  repeated in an object, the last value stands at the key's first position.
\<close>

definition is_prefix :: "jstring \<Rightarrow> jstring \<Rightarrow> bool" where
  "is_prefix p s = (take (length p) s = p)"

definition json_ws :: "jschar \<Rightarrow> bool" where
  "json_ws c = (c = 0x20 \<or> c = 0x09 \<or> c = 0x0A \<or> c = 0x0D)"

definition skip_ws :: "jstring \<Rightarrow> jstring" where
  "skip_ws s = dropWhile json_ws s"

definition hex_val :: "jschar \<Rightarrow> nat option" where
  "hex_val c =
     (if 0x30 \<le> c \<and> c \<le> 0x39 then Some (unat c - 0x30)
      else if 0x41 \<le> c \<and> c \<le> 0x46 then Some (unat c - 0x37)
      else if 0x61 \<le> c \<and> c \<le> 0x66 then Some (unat c - 0x57)
      else None)"

definition unescape :: "jschar \<Rightarrow> jschar option" where
  "unescape c =
     (if c = 0x22 \<or> c = 0x5C \<or> c = 0x2F then Some c
      else if c = 0x62 then Some 0x08
      else if c = 0x66 then Some 0x0C
      else if c = 0x6E then Some 0x0A
      else if c = 0x72 then Some 0x0D
      else if c = 0x74 then Some 0x09
      else None)"

definition cons_fst :: "'a \<Rightarrow> ('a list \<times> 'b) option \<Rightarrow> ('a list \<times> 'b) option" where
  "cons_fst x r = (case r of None \<Rightarrow> None | Some (xs, rest) \<Rightarrow> Some (x # xs, rest))"

text \<open>The characters of a string after its opening quote, and what follows the closing
  quote.\<close>

fun parse_string_body :: "jstring \<Rightarrow> (jstring \<times> jstring) option" where
  "parse_string_body [] = None"
| "parse_string_body (c # cs) =
     (if c = 0x22 then Some ([], cs)
      else if c = 0x5C then
        (case cs of
           [] \<Rightarrow> None
         | e # rest \<Rightarrow>
             if e = 0x75 then
               (case rest of
                  h1 # h2 # h3 # h4 # rest' \<Rightarrow>
                    (case (hex_val h1, hex_val h2, hex_val h3, hex_val h4) of
                       (Some a, Some b, Some c, Some d) \<Rightarrow>
                         cons_fst (of_nat (a * 4096 + b * 256 + c * 16 + d))
                           (parse_string_body rest')
                     | _ \<Rightarrow> None)
                | _ \<Rightarrow> None)
             else
               (case unescape e of
                  Some u \<Rightarrow> cons_fst u (parse_string_body rest)
                | None \<Rightarrow> None))
      else if c < 0x20 then None
      else cons_fst c (parse_string_body cs))"

definition is_digit :: "jschar \<Rightarrow> bool" where
  "is_digit c = (0x30 \<le> c \<and> c \<le> 0x39)"

definition digits_val :: "jstring \<Rightarrow> nat" where
  "digits_val ds = foldl (\<lambda>a c. a * 10 + (unat c - 0x30)) 0 ds"

definition parse_int_part :: "jstring \<Rightarrow> (jstring \<times> jstring) option" where
  "parse_int_part s =
     (case s of
        [] \<Rightarrow> None
      | d # ds \<Rightarrow>
          if d = 0x30 then Some ([d], ds)
          else if is_digit d then Some (d # takeWhile is_digit ds, dropWhile is_digit ds)
          else None)"

definition parse_frac :: "jstring \<Rightarrow> (jstring \<times> jstring) option" where
  "parse_frac s =
     (case s of
        [] \<Rightarrow> Some ([], s)
      | c # cs \<Rightarrow>
          if c = 0x2E then
            (if takeWhile is_digit cs = [] then None
             else Some (takeWhile is_digit cs, dropWhile is_digit cs))
          else Some ([], s))"

definition parse_exp_digits :: "int \<Rightarrow> jstring \<Rightarrow> (int \<times> jstring) option" where
  "parse_exp_digits sign s =
     (if takeWhile is_digit s = [] then None
      else Some (sign * int (digits_val (takeWhile is_digit s)), dropWhile is_digit s))"

definition parse_exp :: "jstring \<Rightarrow> (int \<times> jstring) option" where
  "parse_exp s =
     (case s of
        [] \<Rightarrow> Some (0, s)
      | c # cs \<Rightarrow>
          if c = 0x65 \<or> c = 0x45 then
            (case cs of
               [] \<Rightarrow> None
             | x # xs \<Rightarrow>
                 if x = 0x2D then parse_exp_digits (- 1) xs
                 else if x = 0x2B then parse_exp_digits 1 xs
                 else parse_exp_digits 1 cs)
          else Some (0, s))"

definition number_value :: "bool \<Rightarrow> jstring \<Rightarrow> jstring \<Rightarrow> int \<Rightarrow> rat" where
  "number_value neg ip fp ex =
     (if neg then - 1 else 1) * (of_nat (digits_val (ip @ fp)) / 10 ^ length fp)
       * (if 0 \<le> ex then 10 ^ nat ex else 1 / 10 ^ nat (- ex))"

definition parse_unsigned :: "bool \<Rightarrow> jstring \<Rightarrow> (rat \<times> jstring) option" where
  "parse_unsigned neg s =
     (case parse_int_part s of
        None \<Rightarrow> None
      | Some (ip, s2) \<Rightarrow>
          (case parse_frac s2 of
             None \<Rightarrow> None
           | Some (fp, s3) \<Rightarrow>
               (case parse_exp s3 of
                  None \<Rightarrow> None
                | Some (ex, s4) \<Rightarrow> Some (number_value neg ip fp ex, s4))))"

definition parse_number :: "jstring \<Rightarrow> (rat \<times> jstring) option" where
  "parse_number s =
     (case s of
        [] \<Rightarrow> None
      | c # cs \<Rightarrow> if c = 0x2D then parse_unsigned True cs else parse_unsigned False s)"

fun obj_put :: "jstring \<Rightarrow> json \<Rightarrow> (jstring \<times> json) list \<Rightarrow> (jstring \<times> json) list" where
  "obj_put k v [] = [(k, v)]"
| "obj_put k v ((k', v') # kvs) =
     (if k = k' then (k, v) # kvs else (k', v') # obj_put k v kvs)"

definition obj_of_members :: "(jstring \<times> json) list \<Rightarrow> json" where
  "obj_of_members ms = JObj (foldl (\<lambda>kvs (k, v). obj_put k v kvs) [] ms)"

text \<open>
  The parser proper. The first argument bounds the depth of the recursion; every
  call it guards reads at least one character between itself and the next, so
  \<open>JSON_parse\<close> starts it with more than the text can use. \<open>parse_elements\<close> reads
  \<open>value (, value)* ]\<close> and \<open>parse_members\<close> reads \<open>string : value (, string : value)* }\<close>.
\<close>

fun parse_value :: "nat \<Rightarrow> jstring \<Rightarrow> (json \<times> jstring) option"
  and parse_elements :: "nat \<Rightarrow> jstring \<Rightarrow> (json list \<times> jstring) option"
  and parse_members :: "nat \<Rightarrow> jstring \<Rightarrow> ((jstring \<times> json) list \<times> jstring) option"
where
  "parse_value n s =
     (if n = 0 then None
      else case skip_ws s of
        [] \<Rightarrow> None
      | c # cs \<Rightarrow>
          if c = 0x7B then
            (case skip_ws cs of
               [] \<Rightarrow> None
             | c' # cs' \<Rightarrow>
                 if c' = 0x7D then Some (JObj [], cs')
                 else (case parse_members (n - 1) cs of
                         None \<Rightarrow> None
                       | Some (ms, rest) \<Rightarrow> Some (obj_of_members ms, rest)))
          else if c = 0x5B then
            (case skip_ws cs of
               [] \<Rightarrow> None
             | c' # cs' \<Rightarrow>
                 if c' = 0x5D then Some (JArr [], cs')
                 else (case parse_elements (n - 1) cs of
                         None \<Rightarrow> None
                       | Some (vs, rest) \<Rightarrow> Some (JArr vs, rest)))
          else if c = 0x22 then
            (case parse_string_body cs of
               None \<Rightarrow> None
             | Some (str, rest) \<Rightarrow> Some (JStr str, rest))
          else if is_prefix (ustr ''true'') (c # cs) then Some (JBool True, drop 4 (c # cs))
          else if is_prefix (ustr ''false'') (c # cs) then Some (JBool False, drop 5 (c # cs))
          else if is_prefix (ustr ''null'') (c # cs) then Some (JNull, drop 4 (c # cs))
          else (case parse_number (c # cs) of
                  None \<Rightarrow> None
                | Some (x, rest) \<Rightarrow> Some (JNum x, rest)))"
| "parse_elements n s =
     (if n = 0 then None
      else case parse_value (n - 1) s of
        None \<Rightarrow> None
      | Some (v, r) \<Rightarrow>
          (case skip_ws r of
             [] \<Rightarrow> None
           | c # cs \<Rightarrow>
               if c = 0x2C then cons_fst v (parse_elements (n - 1) cs)
               else if c = 0x5D then Some ([v], cs)
               else None))"
| "parse_members n s =
     (if n = 0 then None
      else case skip_ws s of
        [] \<Rightarrow> None
      | q # cs \<Rightarrow>
          if q = 0x22 then
            (case parse_string_body cs of
               None \<Rightarrow> None
             | Some (k, r) \<Rightarrow>
                 (case skip_ws r of
                    [] \<Rightarrow> None
                  | c2 # r2 \<Rightarrow>
                      if c2 = 0x3A then
                        (case parse_value (n - 1) r2 of
                           None \<Rightarrow> None
                         | Some (v, r3) \<Rightarrow>
                             (case skip_ws r3 of
                                [] \<Rightarrow> None
                              | c3 # r4 \<Rightarrow>
                                  if c3 = 0x2C then cons_fst (k, v) (parse_members (n - 1) r4)
                                  else if c3 = 0x7D then Some ([(k, v)], r4)
                                  else None))
                      else None))
          else None)"

declare parse_value.simps [simp del] parse_elements.simps [simp del] parse_members.simps [simp del]

definition JSON_parse :: "jstring \<Rightarrow> error + json" where
  "JSON_parse text =
     (case parse_value (2 * length text + 2) text of
        None \<Rightarrow> Inl SyntaxError
      | Some (v, rest) \<Rightarrow> if skip_ws rest = [] then Inr v else Inl SyntaxError)"

section \<open>The decryption pipeline\<close>

subsection \<open>decryptB64\<close>

definition decryptB64 :: "env \<Rightarrow> jstring \<Rightarrow> json \<Rightarrow> error + jstring" where
  "decryptB64 e cipherB64 secB64 =
     (if cipherB64 = [] then Inl EmptyCiphertext
      else case deriveKeyFromSec e secB64 of
        Inl err \<Rightarrow> Inl err
      | Inr key \<Rightarrow>
          (case aes_128_cbc_decrypt key key (base64_decode cipherB64) of
             Inl err \<Rightarrow> Inl err
           | Inr plaintext \<Rightarrow> Inr (utf8_decode plaintext)))"

subsection \<open>extractCipherFromResponse\<close>

text \<open>
  \<open>String.prototype.trim\<close> removes the white space and line terminators of ECMAScript
  from both ends; \<open>str_includes s p\<close> is \<open>s.includes(p)\<close>.
\<close>

definition is_ws :: "jschar \<Rightarrow> bool" where
  "is_ws c =
     (c = 0x09 \<or> c = 0x0A \<or> c = 0x0B \<or> c = 0x0C \<or> c = 0x0D \<or> c = 0x20 \<or> c = 0xA0
      \<or> c = 0x1680 \<or> (0x2000 \<le> c \<and> c \<le> 0x200A) \<or> c = 0x2028 \<or> c = 0x2029
      \<or> c = 0x202F \<or> c = 0x205F \<or> c = 0x3000 \<or> c = 0xFEFF)"

definition trim :: "jstring \<Rightarrow> jstring" where
  "trim s = rev (dropWhile is_ws (rev (dropWhile is_ws s)))"

fun str_includes :: "jstring \<Rightarrow> jstring \<Rightarrow> bool" where
  "str_includes [] p = (p = [])"
| "str_includes (c # cs) p = (is_prefix p (c # cs) \<or> str_includes cs p)"

text \<open>
  What the extractor reads of a \<open>Response\<close> of \<open>fetch\<close>: the \<open>content-type\<close> header
  (\<open>None\<close> when \<open>headers.get\<close> gives \<open>null\<close>), the body, \<open>response.status\<close> and
  \<open>response.url\<close>. The body of a response is a stream that can be read once. A response
  either has no body (\<open>NoBody\<close>: \<open>response.body\<close> is \<open>null\<close>, as for a 204), or it has
  one, \<open>Body j\<close>, where \<open>j\<close> is the outcome of \<open>await response.json()\<close> on it: the parsed
  value, or the error the promise rejects with.

  \<open>json_body r\<close> is \<open>await response.json()\<close> as the first read of the body; without a body
  there is no text to parse and the promise rejects with a \<open>SyntaxError\<close>.
  \<open>text_after_json r\<close> is \<open>await response.text()\<close> once \<open>response.json()\<close> has been called,
  which is the only way the source calls it (line 76 comes after line 56 or line 65 on
  every path): a body that has been read is unusable and the promise rejects with a
  \<open>TypeError\<close>, whether \<open>json()\<close> resolved or not; only a response without a body still
  gives a text, the empty string.
\<close>

datatype body = NoBody | Body "error + json"

record response =
  content_type :: "jstring option"
  body :: body
  status :: int
  url :: jstring

definition json_body :: "response \<Rightarrow> error + json" where
  "json_body r = (case body r of NoBody \<Rightarrow> Inl SyntaxError | Body j \<Rightarrow> j)"

definition text_after_json :: "response \<Rightarrow> error + jstring" where
  "text_after_json r = (case body r of NoBody \<Rightarrow> Inr [] | Body j \<Rightarrow> Inl TypeError)"

text \<open>Lines 57 to 62 of the source, and again 66 to 71: the trimmed \<open>data\<close> member of
  an object payload, when it is a string that is not empty after trimming.\<close>

definition payload_data :: "json \<Rightarrow> jstring option" where
  "payload_data payload =
     (if truthy payload \<and> (case payload of JObj _ \<Rightarrow> True | JArr _ \<Rightarrow> True | _ \<Rightarrow> False) then
        (case member payload (ustr ''data'') of
           Some (JStr d) \<Rightarrow> if trim d \<noteq> [] then Some (trim d) else None
         | _ \<Rightarrow> None)
      else None)"

text \<open>Lines 76 to 82: the trimmed text of the response, or the error. The body has
  been read by then.\<close>

definition text_fallback :: "response \<Rightarrow> error + jstring" where
  "text_fallback r =
     (case text_after_json r of
        Inl err \<Rightarrow> Inl err
      | Inr t \<Rightarrow> if trim t \<noteq> [] then Inr (trim t) else Inl (EmptyResponse (status r) (url r)))"

text \<open>Line 54: the content type, the empty string when the header is absent.\<close>

definition contentType :: "response \<Rightarrow> jstring" where
  "contentType r = (case content_type r of None \<Rightarrow> [] | Some c \<Rightarrow> c)"

definition extractCipherFromResponse :: "response \<Rightarrow> error + jstring" where
  "extractCipherFromResponse r =
     (if str_includes (contentType r) (ustr ''application/json'') then
        (case json_body r of
           Inl err \<Rightarrow> Inl err
         | Inr payload \<Rightarrow>
             (case payload_data payload of
                Some d \<Rightarrow> Inr d
              | None \<Rightarrow> text_fallback r))
      else
        (case json_body r of
           Inl err \<Rightarrow> text_fallback r
         | Inr payload \<Rightarrow>
             (case payload_data payload of
                Some d \<Rightarrow> Inr d
              | None \<Rightarrow> text_fallback r)))"

subsection \<open>The key store: SECURITY_CACHE and fetchSecurityKey\<close>

text \<open>
  The module's state is the cache; \<open>requests\<close> records the URL of every call of
  \<open>fetch\<close> the key store makes, in order. The clock (\<open>Date.now()\<close>, in milliseconds)
  and \<open>fetch\<close> are arguments: \<open>fetch url\<close> is the response, or the error of a
  rejected request.
\<close>

record store =
  cache_value :: json
  cache_fetchedAt :: int
  requests :: "jstring list"

definition initial_store :: store where
  "initial_store = \<lparr> cache_value = JNull, cache_fetchedAt = 0, requests = [] \<rparr>"

definition SECURITY_TTL_MS :: int where
  "SECURITY_TTL_MS = 10 * 60 * 1000"

definition key_url :: "env \<Rightarrow> jstring" where
  "key_url e =
     BASE e @ ustr ''/v0.1/system/getSecurityKey/1?channel='' @ CHANNEL e
       @ ustr ''&clientType='' @ CLIENT e @ ustr ''&lang='' @ LANG e"

definition fetchSecurityKey ::
  "env \<Rightarrow> (jstring \<Rightarrow> error + response) \<Rightarrow> int \<Rightarrow> store \<Rightarrow> (error + json) \<times> store" where
  "fetchSecurityKey e fetch now st =
     (if truthy (cache_value st) \<and> now - cache_fetchedAt st < SECURITY_TTL_MS
        then (Inr (cache_value st), st)
      else
        let st1 = st\<lparr> requests := requests st @ [key_url e] \<rparr> in
        case fetch (key_url e) of
          Inl err \<Rightarrow> (Inl err, st1)
        | Inr response \<Rightarrow>
            let payload = (case json_body response of Inl err \<Rightarrow> JNull | Inr p \<Rightarrow> p) in
            if \<not> truthy payload \<or> member payload (ustr ''code'') \<noteq> Some (JNum 200)
                 \<or> \<not> truthy_opt (member payload (ustr ''data''))
              then (Inl (UnexpectedResponse payload), st1)
            else
              (case member payload (ustr ''data'') of
                 None \<Rightarrow> (Inl (UnexpectedResponse payload), st1)
               | Some data \<Rightarrow> (Inr data, st1\<lparr> cache_value := data, cache_fetchedAt := now \<rparr>)))"

subsection \<open>decryptPayload\<close>

definition decryptPayload ::
  "env \<Rightarrow> (jstring \<Rightarrow> error + response) \<Rightarrow> int \<Rightarrow> store \<Rightarrow> jstring \<Rightarrow> json
     \<Rightarrow> (error + json) \<times> store" where
  "decryptPayload e fetch now st cipherText secB64 =
     (let (got, st') = (if truthy secB64 then (Inr secB64, st)
                        else fetchSecurityKey e fetch now st) in
      case got of
        Inl err \<Rightarrow> (Inl err, st')
      | Inr securityKey \<Rightarrow>
          (case decryptB64 e cipherText securityKey of
             Inl err \<Rightarrow> (Inl err, st')
           | Inr decrypted \<Rightarrow> (JSON_parse decrypted, st')))"

section \<open>Notions of the specification\<close>

text \<open>
  Well-formed base64 in the sense of RFC 4648: characters of the standard alphabet,
  then at most two \<open>=\<close>, four characters per group.
\<close>

definition std_b64_char :: "jschar \<Rightarrow> bool" where
  "std_b64_char c =
     ((0x41 \<le> c \<and> c \<le> 0x5A) \<or> (0x61 \<le> c \<and> c \<le> 0x7A) \<or> (0x30 \<le> c \<and> c \<le> 0x39)
      \<or> c = 0x2B \<or> c = 0x2F)"

definition wellformed_base64 :: "jstring \<Rightarrow> bool" where
  "wellformed_base64 s =
     (length s mod 4 = 0 \<and> list_all std_b64_char (takeWhile (\<lambda>c. c \<noteq> 0x3D) s)
      \<and> list_all (\<lambda>c. c = 0x3D) (dropWhile (\<lambda>c. c \<noteq> 0x3D) s)
      \<and> length (dropWhile (\<lambda>c. c \<noteq> 0x3D) s) \<le> 2)"

text \<open>HTTP-level success, as \<open>response.ok\<close> reports it: a status from 200 to 299.\<close>

definition http_ok :: "response \<Rightarrow> bool" where
  "http_ok r = (200 \<le> status r \<and> status r \<le> 299)"

text \<open>Upstream answers used as concrete inputs: the key endpoint answering
  \<open>{"code": 200, "data": "QUJD"}\<close> with a given HTTP status, and an endpoint that is
  down and answers 503 with a page that is not JSON.\<close>

definition key_response :: "int \<Rightarrow> response" where
  "key_response st =
     \<lparr> content_type = Some (ustr ''application/json''),
       body = Body (Inr (JObj [(ustr ''code'', JNum 200), (ustr ''data'', JStr (ustr ''QUJD''))])),
       status = st, url = key_url default_env \<rparr>"

definition down_response :: response where
  "down_response =
     \<lparr> content_type = Some (ustr ''text/html''), body = Body (Inl SyntaxError), status = 503,
       url = key_url default_env \<rparr>"

text \<open>
  PKCS#7 padding for a cipher with blocks of 16 bytes: padded data ends in \<open>n\<close> bytes of
  value \<open>n\<close>, for some \<open>n\<close> from 1 to 16, and \<open>strip_padding\<close> removes them.
\<close>

definition padding_valid :: "byte list \<Rightarrow> bool" where
  "padding_valid p =
     (p \<noteq> [] \<and> 1 \<le> unat (last p) \<and> unat (last p) \<le> 16 \<and> unat (last p) \<le> length p
      \<and> drop (length p - unat (last p)) p = replicate (unat (last p)) (last p))"

definition strip_padding :: "byte list \<Rightarrow> byte list" where
  "strip_padding p = take (length p - unat (last p)) p"

section \<open>The matching encrypt helper of the round-trip property\<close>

text \<open>
  The source only decrypts. The round-trip property of the specification is stated
  against the encryption it inverts: AES-128 (the cipher of FIPS 197) in CBC mode
  with PKCS#7 padding, under the derived key as key and as IV, the result encoded
  as standard base64 with padding.
\<close>

definition enc_round :: "byte list \<Rightarrow> byte list \<Rightarrow> byte list" where
  "enc_round s k = AddRoundKey (MixColumns (ShiftRows (SubBytes s))) k"

fun Cipher :: "byte list list \<Rightarrow> byte list \<Rightarrow> byte list" where
  "Cipher (k0 # ks) p =
     AddRoundKey (ShiftRows (SubBytes (foldl enc_round (AddRoundKey p k0) (butlast ks)))) (last ks)"
| "Cipher [] p = p"

fun cbc_encrypt :: "nat \<Rightarrow> byte list list \<Rightarrow> byte list \<Rightarrow> byte list \<Rightarrow> byte list" where
  "cbc_encrypt 0 ks prev p = []"
| "cbc_encrypt (Suc n) ks prev p =
     Cipher ks (AddRoundKey (take 16 p) prev)
       @ cbc_encrypt n ks (Cipher ks (AddRoundKey (take 16 p) prev)) (drop 16 p)"

definition pkcs7_pad :: "byte list \<Rightarrow> byte list" where
  "pkcs7_pad p = p @ replicate (16 - length p mod 16) (of_nat (16 - length p mod 16))"

definition aes_128_cbc_encrypt :: "byte list \<Rightarrow> byte list \<Rightarrow> byte list \<Rightarrow> byte list" where
  "aes_128_cbc_encrypt key iv plaintext =
     cbc_encrypt (length (pkcs7_pad plaintext) div 16) (KeyExpansion key) iv (pkcs7_pad plaintext)"

definition b64char :: "nat \<Rightarrow> jschar" where
  "b64char n =
     (if n < 26 then of_nat (n + 65)
      else if n < 52 then of_nat (n + 71)
      else if n < 62 then of_nat (n - 4)
      else if n = 62 then 0x2B
      else 0x2F)"

fun base64_encode :: "byte list \<Rightarrow> jstring" where
  "base64_encode (x # y # z # rest) =
     [b64char (unat x div 4), b64char ((unat x mod 4) * 16 + unat y div 16),
      b64char ((unat y mod 16) * 4 + unat z div 64), b64char (unat z mod 64)]
       @ base64_encode rest"
| "base64_encode [x, y] =
     [b64char (unat x div 4), b64char ((unat x mod 4) * 16 + unat y div 16),
      b64char ((unat y mod 16) * 4), 0x3D]"
| "base64_encode [x] = [b64char (unat x div 4), b64char ((unat x mod 4) * 16), 0x3D, 0x3D]"
| "base64_encode [] = []"

definition encryptB64 :: "env \<Rightarrow> byte list \<Rightarrow> json \<Rightarrow> error + jstring" where
  "encryptB64 e plaintext secB64 =
     (case deriveKeyFromSec e secB64 of
        Inl err \<Rightarrow> Inl err
      | Inr key \<Rightarrow> Inr (base64_encode (aes_128_cbc_encrypt key key plaintext)))"

text \<open>
  What the helper encrypts is the text of the JSON value, in UTF-8. \<open>serialise\<close> writes a
  value the way \<open>JSON.stringify\<close> does: no white space, the members of an object in
  their order, a string between quotes with the escapes of \<open>QuoteJSONString\<close> (the quote,
  the backslash, the control characters, and a surrogate that has no partner as
  \<open>\uXXXX\<close>; every other character as it is). A number is written in full: an integer
  by its digits, any other number \<open>m / 10 ^ e\<close> as the digits of \<open>m\<close>, then \<open>e-\<close> and the
  digits of the least such \<open>e\<close>, so that the literal has exactly the value of the
  number.
\<close>

function digits_of :: "nat \<Rightarrow> jstring" where
  "digits_of n =
     (if n < 10 then [of_nat (0x30 + n)] else digits_of (n div 10) @ [of_nat (0x30 + n mod 10)])"
  by pat_completeness auto
termination
  by (relation "measure id") auto

declare digits_of.simps [simp del]

text \<open>\<open>decimal_exponent n q e\<close> is the least \<open>e'\<close> from \<open>e\<close> on, among the next \<open>n\<close>, for which
  \<open>q * 10 ^ e'\<close> is an integer. A rational with the denominator \<open>d\<close> has one below \<open>d\<close> when
  it has one at all.\<close>

fun decimal_exponent :: "nat \<Rightarrow> rat \<Rightarrow> nat \<Rightarrow> nat option" where
  "decimal_exponent 0 q e = None"
| "decimal_exponent (Suc n) q e =
     (if of_int \<lfloor>q * 10 ^ e\<rfloor> = q * 10 ^ e then Some e else decimal_exponent n q (Suc e))"

definition exponent_of :: "rat \<Rightarrow> nat option" where
  "exponent_of q = decimal_exponent (nat (snd (quotient_of q))) q 0"

definition number_text :: "rat \<Rightarrow> jstring" where
  "number_text q =
     (case exponent_of q of
        None \<Rightarrow> ustr ''null''
      | Some e \<Rightarrow>
          (if q < 0 then [0x2D] else []) @ digits_of (nat \<bar>\<lfloor>q * 10 ^ e\<rfloor>\<bar>)
            @ (if e = 0 then [] else [0x65, 0x2D] @ digits_of e))"

definition hex_digit :: "nat \<Rightarrow> jschar" where
  "hex_digit d = (if d < 10 then of_nat (0x30 + d) else of_nat (0x57 + d))"

definition hex4 :: "jschar \<Rightarrow> jstring" where
  "hex4 c =
     [hex_digit (unat c div 4096), hex_digit (unat c div 256 mod 16),
      hex_digit (unat c div 16 mod 16), hex_digit (unat c mod 16)]"

definition is_high :: "jschar \<Rightarrow> bool" where
  "is_high c = (0xD800 \<le> c \<and> c \<le> 0xDBFF)"

definition is_low :: "jschar \<Rightarrow> bool" where
  "is_low c = (0xDC00 \<le> c \<and> c \<le> 0xDFFF)"

definition escape_unit :: "jschar \<Rightarrow> jstring" where
  "escape_unit c =
     (if c = 0x22 then [0x5C, 0x22]
      else if c = 0x5C then [0x5C, 0x5C]
      else if c = 0x08 then [0x5C, 0x62]
      else if c = 0x09 then [0x5C, 0x74]
      else if c = 0x0A then [0x5C, 0x6E]
      else if c = 0x0C then [0x5C, 0x66]
      else if c = 0x0D then [0x5C, 0x72]
      else if c < 0x20 \<or> is_high c \<or> is_low c then [0x5C, 0x75] @ hex4 c
      else [c])"

fun quote_body :: "jstring \<Rightarrow> jstring" where
  "quote_body [] = []"
| "quote_body [c] = escape_unit c"
| "quote_body (c # d # cs) =
     (if is_high c \<and> is_low d then c # d # quote_body cs
      else escape_unit c @ quote_body (d # cs))"

definition quote :: "jstring \<Rightarrow> jstring" where
  "quote s = 0x22 # quote_body s @ [0x22]"

fun commas :: "jstring list \<Rightarrow> jstring" where
  "commas [] = []"
| "commas [x] = x"
| "commas (x # y # ys) = x @ 0x2C # commas (y # ys)"

fun serialise :: "json \<Rightarrow> jstring" where
  "serialise JNull = ustr ''null''"
| "serialise (JBool b) = (if b then ustr ''true'' else ustr ''false'')"
| "serialise (JNum q) = number_text q"
| "serialise (JStr s) = quote s"
| "serialise (JArr vs) = 0x5B # commas (map serialise vs) @ [0x5D]"
| "serialise (JObj kvs) =
     0x7B # commas (map (\<lambda>kv. quote (fst kv) @ 0x3A # serialise (snd kv)) kvs) @ [0x7D]"

text \<open>
  \<open>Buffer.from(text, "utf8")\<close>: the UTF-8 bytes of a string, a surrogate pair as the four
  bytes of its code point, a surrogate without partner as those of U+FFFD.
\<close>

definition utf8_bytes :: "nat \<Rightarrow> byte list" where
  "utf8_bytes cp =
     (if cp < 0x80 then [of_nat cp]
      else if cp < 0x800 then [of_nat (0xC0 + cp div 64), of_nat (0x80 + cp mod 64)]
      else if cp < 0x10000 then
        [of_nat (0xE0 + cp div 4096), of_nat (0x80 + cp div 64 mod 64), of_nat (0x80 + cp mod 64)]
      else
        [of_nat (0xF0 + cp div 262144), of_nat (0x80 + cp div 4096 mod 64),
         of_nat (0x80 + cp div 64 mod 64), of_nat (0x80 + cp mod 64)])"

fun utf8_encode :: "jstring \<Rightarrow> byte list" where
  "utf8_encode [] = []"
| "utf8_encode [c] = (if is_high c \<or> is_low c then [0xEF, 0xBF, 0xBD] else utf8_bytes (unat c))"
| "utf8_encode (c # d # cs) =
     (if is_high c \<and> is_low d then
        utf8_bytes (0x10000 + (unat c - 0xD800) * 0x400 + (unat d - 0xDC00)) @ utf8_encode cs
      else if is_high c \<or> is_low c then [0xEF, 0xBF, 0xBD] @ utf8_encode (d # cs)
      else utf8_bytes (unat c) @ utf8_encode (d # cs))"

text \<open>The helper: serialise, encode, encrypt.\<close>

definition encryptPayload :: "env \<Rightarrow> json \<Rightarrow> json \<Rightarrow> error + jstring" where
  "encryptPayload e v secB64 = encryptB64 e (utf8_encode (serialise v)) secB64"

text \<open>
  The values of the model that are values of JSON: every number has a finite decimal
  expansion (as every binary64 number has), and no key occurs twice in an object.
\<close>

fun json_value :: "json \<Rightarrow> bool" where
  "json_value (JNum q) = (exponent_of q \<noteq> None)"
| "json_value (JArr vs) = list_all json_value vs"
| "json_value (JObj kvs) = (distinct (map fst kvs) \<and> list_all (\<lambda>kv. json_value (snd kv)) kvs)"
| "json_value v = True"

text \<open>A string is well-formed UTF-16 when every surrogate is half of a pair.\<close>

fun well_formed :: "jstring \<Rightarrow> bool" where
  "well_formed [] = True"
| "well_formed [c] = (\<not> is_high c \<and> \<not> is_low c)"
| "well_formed (c # d # cs) =
     (if is_high c then is_low d \<and> well_formed cs else \<not> is_low c \<and> well_formed (d # cs))"

text \<open>Notions of the proofs about \<open>serialise\<close>: a character that is not a surrogate; the
  text of one member of an object; and what may follow a value in a JSON text, which
  is nothing, a comma, or a closing bracket or brace.\<close>

definition plain :: "jschar \<Rightarrow> bool" where
  "plain c = (\<not> is_high c \<and> \<not> is_low c)"

definition member_text :: "jstring \<times> json \<Rightarrow> jstring" where
  "member_text kv = quote (fst kv) @ 0x3A # serialise (snd kv)"

definition stops :: "jstring \<Rightarrow> bool" where
  "stops t = (case t of [] \<Rightarrow> True | c # cs \<Rightarrow> c = 0x2C \<or> c = 0x5D \<or> c = 0x7D)"

section \<open>Checking a property of every index below a bound\<close>

fun all_below :: "(nat \<Rightarrow> bool) \<Rightarrow> nat \<Rightarrow> bool" where
  "all_below P 0 = True"
| "all_below P (Suc n) = (P n \<and> all_below P n)"


text \<open>A ciphertext, and the same ciphertext with its 24th character changed from \<open>R\<close> to
  \<open>E\<close> (one byte of the encrypted data, the second of its second block), with the
  texts the two decrypt to under the key \<open>QUJD\<close>.\<close>

definition sample_ciphertext :: jstring where
  "sample_ciphertext =
     ustr ''V01ZZRJKjFQkgqoSuBdb858RKZj+GDS+QrOFUT74Tl4pY9HpCpzhL8o7L9MYPiXyQBdFNYu7JpaxeLVffXzxrg==''"

definition tampered_ciphertext :: jstring where
  "tampered_ciphertext =
     ustr ''V01ZZRJKjFQkgqoSuBdb858EKZj+GDS+QrOFUT74Tl4pY9HpCpzhL8o7L9MYPiXyQBdFNYu7JpaxeLVffXzxrg==''"

definition sample_text :: jstring where
  "sample_text = ustr ''{\"title\":\"coozujqadirzbtdhqlhevf episode guide\",\"id\":5315}''"

definition tampered_text :: jstring where
  "tampered_text = ustr ''{\"title\":\"coozujUa_=%`>oe<7NBo#L ppisode guide\",\"id\":5315}''"

text \<open>Responses used as concrete inputs of the extractor. Three have a body: the text
  \<open> xyz \<close> sent as \<open>text/plain\<close> with status 200, a page that is not JSON sent under a
  JSON content type with status 502, and the envelope \<open>{"data": "  abc123==  "}\<close> with no
  content type. The fourth is a 204 answer, which has no body and no content type.\<close>

definition plain_text_answer :: response where
  "plain_text_answer =
     \<lparr> content_type = Some (ustr ''text/plain''), body = Body (Inl SyntaxError), status = 200,
       url = ustr ''https://api.fstcy.com/x'' \<rparr>"

definition json_labelled_page :: response where
  "json_labelled_page =
     \<lparr> content_type = Some (ustr ''application/json; charset=utf-8''),
       body = Body (Inl SyntaxError), status = 502, url = ustr ''https://api.fstcy.com/y'' \<rparr>"

definition enveloped :: response where
  "enveloped =
     \<lparr> content_type = None,
       body = Body (Inr (JObj [(ustr ''data'', JStr (ustr ''  abc123==  ''))])), status = 200,
       url = ustr ''https://api.fstcy.com/x'' \<rparr>"

definition no_content :: response where
  "no_content =
     \<lparr> content_type = None, body = NoBody, status = 204,
       url = ustr ''https://api.fstcy.com/z'' \<rparr>"

text \<open>A value with the kinds of members JSON has: a boolean, numbers that are and are not
  integers, and a string with a character outside ASCII, a control character, a
  quote, a surrogate pair and a surrogate without partner.\<close>

definition sample_value :: json where
  "sample_value =
     JObj [(ustr ''ok'', JBool True),
           (ustr ''n'', JArr [JNum 5315, JNum (5 / 2), JNum (- 1 / 1000), JNull]),
           (ustr ''s'', JStr [0xE9, 0x0A, 0x22, 0xD83D, 0xDE00, 0xDC00])]"

section \<open>Properties of key derivation\<close>

text \<open>
  C3. For every input string, \<open>deriveKeyFromSec\<close> returns a key of exactly 16 bytes,
  a function of the string and the configured suffix alone: the decoded bytes of the
  security key followed by the bytes of the suffix, padded on the right with zero
  bytes when that is shorter than 16 bytes, cut to its first 16 bytes when longer.
\<close>

theorem deriveKeyFromSec_sixteen_bytes:
  "\<exists>k. deriveKeyFromSec e (JStr s) = Inr k \<and> length k = 16 \<and>
     (let m = base64_decode s @ ascii_bytes (SUFFIX e) in
        (length m < 16 \<longrightarrow> k = m @ replicate (16 - length m) 0) \<and>
        (length m > 16 \<longrightarrow> k = take 16 m) \<and>
        (length m = 16 \<longrightarrow> k = m))"
  by (auto simp add: deriveKeyFromSec_def Let_def)

theorem deriveKeyFromSec_sixteen_bytes_witness:
  "deriveKeyFromSec default_env (JStr (ustr ''QUJD'')) =
     Inr [0x41, 0x42, 0x43, 0x54, 0x21, 0x42, 0x67, 0x4A, 0x42, 0, 0, 0, 0, 0, 0, 0]"
proof -
  have pad: "replicate 7 (0::byte) = [0, 0, 0, 0, 0, 0, 0]"
    by (simp add: numeral_eq_Suc)
  show ?thesis
    using deriveKeyFromSec_sixteen_bytes [of default_env "ustr ''QUJD''"]
    by (simp add: default_env_def ustr_def base64_decode_def unbase64_def ascii_bytes_def
        Let_def pad)
qed

section \<open>Properties of the key store\<close>

lemma fetchSecurityKey_hit:
  "truthy (cache_value st) \<Longrightarrow> now - cache_fetchedAt st < SECURITY_TTL_MS \<Longrightarrow>
   fetchSecurityKey e f now st = (Inr (cache_value st), st)"
  by (simp add: fetchSecurityKey_def)

lemma fetchSecurityKey_miss_requests:
  "\<not> (truthy (cache_value st) \<and> now - cache_fetchedAt st < SECURITY_TTL_MS) \<Longrightarrow>
   requests (snd (fetchSecurityKey e f now st)) = requests st @ [key_url e]"
  by (auto simp add: fetchSecurityKey_def Let_def split: sum.splits option.splits)

lemma fetchSecurityKey_miss_success:
  "\<not> (truthy (cache_value st) \<and> now - cache_fetchedAt st < SECURITY_TTL_MS) \<Longrightarrow>
   fetchSecurityKey e f now st = (Inr k, st') \<Longrightarrow>
   truthy k \<and>
   st' = st\<lparr> requests := requests st @ [key_url e], cache_value := k, cache_fetchedAt := now \<rparr>"
  by (auto simp add: fetchSecurityKey_def Let_def split: sum.splits option.splits if_splits)

lemma fetchSecurityKey_requests_le:
  "length (requests (snd (fetchSecurityKey e f now st))) \<le> length (requests st) + 1"
  by (auto simp add: fetchSecurityKey_def Let_def split: sum.splits option.splits)

lemma fetchSecurityKey_failure_keeps_cache:
  "fetchSecurityKey e f now st = (Inl err, st') \<Longrightarrow>
   cache_value st' = cache_value st \<and> cache_fetchedAt st' = cache_fetchedAt st"
  by (auto simp add: fetchSecurityKey_def Let_def split: sum.splits option.splits if_splits)

lemma key_response_fetch:
  "fetchSecurityKey default_env (\<lambda>u. Inr (key_response h)) now initial_store =
     (Inr (JStr (ustr ''QUJD'')),
      \<lparr> cache_value = JStr (ustr ''QUJD''), cache_fetchedAt = now,
        requests = [key_url default_env] \<rparr>)"
  by (simp add: fetchSecurityKey_def initial_store_def key_response_def json_body_def ustr_def
      Let_def)

lemma down_response_fetch:
  "\<not> truthy (cache_value st) \<Longrightarrow>
   fetchSecurityKey default_env (\<lambda>u. Inr down_response) now st =
     (Inl (UnexpectedResponse JNull), st\<lparr> requests := requests st @ [key_url default_env] \<rparr>)"
  by (simp add: fetchSecurityKey_def down_response_def json_body_def Let_def)

text \<open>
  C1, as the code has it. A call that finds a cached key younger than the TTL returns
  it and leaves the store as it is: no fetch. Of two calls less than the TTL apart,
  the first of which returns a key, at most one fetches; when the first one fetched,
  the second returns the same key from the cache. A call that finds no key, or an
  expired one, issues exactly one fetch, and when it returns a key, that key and the
  time of the call are the new cache.
\<close>

theorem fetchSecurityKey_cache:
  "(truthy (cache_value st) \<and> now - cache_fetchedAt st < SECURITY_TTL_MS \<longrightarrow>
      fetchSecurityKey e f now st = (Inr (cache_value st), st))
   \<and> (fetchSecurityKey e f1 t1 st = (Inr k, st1) \<and> t2 - t1 < SECURITY_TTL_MS \<longrightarrow>
        length (requests (snd (fetchSecurityKey e f2 t2 st1))) \<le> length (requests st) + 1
        \<and> (requests st1 \<noteq> requests st \<longrightarrow> fetchSecurityKey e f2 t2 st1 = (Inr k, st1)))
   \<and> (\<not> (truthy (cache_value st) \<and> now - cache_fetchedAt st < SECURITY_TTL_MS) \<longrightarrow>
        requests (snd (fetchSecurityKey e f now st)) = requests st @ [key_url e]
        \<and> (\<forall>k' st'. fetchSecurityKey e f now st = (Inr k', st') \<longrightarrow>
              cache_value st' = k' \<and> cache_fetchedAt st' = now))"
proof (intro conjI impI allI)
  assume "truthy (cache_value st) \<and> now - cache_fetchedAt st < SECURITY_TTL_MS"
  then show "fetchSecurityKey e f now st = (Inr (cache_value st), st)"
    by (simp add: fetchSecurityKey_hit)
next
  assume two: "fetchSecurityKey e f1 t1 st = (Inr k, st1) \<and> t2 - t1 < SECURITY_TTL_MS"
  show "length (requests (snd (fetchSecurityKey e f2 t2 st1))) \<le> length (requests st) + 1"
  proof (cases "truthy (cache_value st) \<and> t1 - cache_fetchedAt st < SECURITY_TTL_MS")
    case True
    with two have "st1 = st" by (simp add: fetchSecurityKey_hit)
    then show ?thesis using fetchSecurityKey_requests_le [of e f2 t2 st] by simp
  next
    case False
    from fetchSecurityKey_miss_success [OF False] two
    have st1: "truthy k"
      "st1 = st\<lparr> requests := requests st @ [key_url e], cache_value := k, cache_fetchedAt := t1 \<rparr>"
      by blast+
    with two have "fetchSecurityKey e f2 t2 st1 = (Inr k, st1)"
      by (simp add: fetchSecurityKey_hit)
    with st1 show ?thesis by simp
  qed
next
  assume two: "fetchSecurityKey e f1 t1 st = (Inr k, st1) \<and> t2 - t1 < SECURITY_TTL_MS"
    and fetched: "requests st1 \<noteq> requests st"
  have miss: "\<not> (truthy (cache_value st) \<and> t1 - cache_fetchedAt st < SECURITY_TTL_MS)"
  proof
    assume "truthy (cache_value st) \<and> t1 - cache_fetchedAt st < SECURITY_TTL_MS"
    with two have "st1 = st" by (simp add: fetchSecurityKey_hit)
    with fetched show False by simp
  qed
  from fetchSecurityKey_miss_success [OF miss] two
  have "truthy k"
    "st1 = st\<lparr> requests := requests st @ [key_url e], cache_value := k, cache_fetchedAt := t1 \<rparr>"
    by blast+
  with two show "fetchSecurityKey e f2 t2 st1 = (Inr k, st1)"
    by (simp add: fetchSecurityKey_hit)
next
  assume "\<not> (truthy (cache_value st) \<and> now - cache_fetchedAt st < SECURITY_TTL_MS)"
  then show "requests (snd (fetchSecurityKey e f now st)) = requests st @ [key_url e]"
    by (rule fetchSecurityKey_miss_requests)
next
  fix k' st'
  assume miss: "\<not> (truthy (cache_value st) \<and> now - cache_fetchedAt st < SECURITY_TTL_MS)"
    and ok: "fetchSecurityKey e f now st = (Inr k', st')"
  from fetchSecurityKey_miss_success [OF miss ok] show "cache_value st' = k'" by simp
next
  fix k' st'
  assume miss: "\<not> (truthy (cache_value st) \<and> now - cache_fetchedAt st < SECURITY_TTL_MS)"
    and ok: "fetchSecurityKey e f now st = (Inr k', st')"
  from fetchSecurityKey_miss_success [OF miss ok] show "cache_fetchedAt st' = now" by simp
qed

text \<open>Witness: the first call at time 1000 fetches the key, the second at time 2000 is
  answered from the cache.\<close>

theorem fetchSecurityKey_cache_witness:
  "fetchSecurityKey default_env (\<lambda>u. Inr (key_response 200)) 1000 initial_store =
     (Inr (JStr (ustr ''QUJD'')),
      \<lparr> cache_value = JStr (ustr ''QUJD''), cache_fetchedAt = 1000,
        requests = [key_url default_env] \<rparr>)
   \<and> (2000 :: int) - 1000 < SECURITY_TTL_MS
   \<and> fetchSecurityKey default_env (\<lambda>u. Inr down_response) 2000
       \<lparr> cache_value = JStr (ustr ''QUJD''), cache_fetchedAt = 1000,
         requests = [key_url default_env] \<rparr> =
     (Inr (JStr (ustr ''QUJD'')),
      \<lparr> cache_value = JStr (ustr ''QUJD''), cache_fetchedAt = 1000,
        requests = [key_url default_env] \<rparr>)"
proof -
  have first: "fetchSecurityKey default_env (\<lambda>u. Inr (key_response 200)) 1000 initial_store =
     (Inr (JStr (ustr ''QUJD'')),
      \<lparr> cache_value = JStr (ustr ''QUJD''), cache_fetchedAt = 1000,
        requests = [key_url default_env] \<rparr>)"
    by (rule key_response_fetch)
  have near: "(2000 :: int) - 1000 < SECURITY_TTL_MS"
    by (simp add: SECURITY_TTL_MS_def)
  have fetched: "requests \<lparr> cache_value = JStr (ustr ''QUJD''), cache_fetchedAt = 1000,
        requests = [key_url default_env] \<rparr> \<noteq> requests initial_store"
    by (simp add: initial_store_def)
  from fetchSecurityKey_cache [of initial_store 1000 default_env "\<lambda>u. Inr (key_response 200)"
      "\<lambda>u. Inr (key_response 200)" 1000 "JStr (ustr ''QUJD'')"
      "\<lparr> cache_value = JStr (ustr ''QUJD''), cache_fetchedAt = 1000,
         requests = [key_url default_env] \<rparr>" 2000 "\<lambda>u. Inr down_response"]
    first near fetched
  show ?thesis by blast
qed

text \<open>
  C1 as stated fails when the upstream is down: the first call caches nothing, so two
  calls one millisecond apart both fetch.
\<close>

theorem fetchSecurityKey_two_fetches_counterexample:
  "(1001 :: int) - 1000 < SECURITY_TTL_MS
   \<and> requests (snd (fetchSecurityKey default_env (\<lambda>u. Inr down_response) 1001
        (snd (fetchSecurityKey default_env (\<lambda>u. Inr down_response) 1000 initial_store)))) =
      [key_url default_env, key_url default_env]"
  by (simp add: down_response_fetch initial_store_def SECURITY_TTL_MS_def)

text \<open>
  C5, as the code has it. A call that has to fetch and gets a response succeeds exactly
  when the body parses as JSON to a truthy payload whose \<open>code\<close> is the number 200
  and whose \<open>data\<close> is truthy, whatever the HTTP status; it then returns \<open>data\<close> and
  replaces the cached value and timestamp. Every other response fails with the error
  that carries the parsed payload (\<open>null\<close> when the body is not JSON). A call that
  fails, for any reason, leaves the cached value and timestamp as they were.
\<close>

theorem fetchSecurityKey_upstream:
  assumes "\<not> (truthy (cache_value st) \<and> now - cache_fetchedAt st < SECURITY_TTL_MS)"
    and "f (key_url e) = Inr r"
    and "payload = (case json_body r of Inl err \<Rightarrow> JNull | Inr p \<Rightarrow> p)"
  shows "(truthy payload \<and> member payload (ustr ''code'') = Some (JNum 200)
            \<and> truthy_opt (member payload (ustr ''data'')) \<longrightarrow>
          (\<exists>data. member payload (ustr ''data'') = Some data
             \<and> fetchSecurityKey e f now st =
                 (Inr data, st\<lparr> requests := requests st @ [key_url e], cache_value := data,
                               cache_fetchedAt := now \<rparr>)))
       \<and> (\<not> (truthy payload \<and> member payload (ustr ''code'') = Some (JNum 200)
               \<and> truthy_opt (member payload (ustr ''data''))) \<longrightarrow>
          fetchSecurityKey e f now st =
            (Inl (UnexpectedResponse payload), st\<lparr> requests := requests st @ [key_url e] \<rparr>))
       \<and> (\<forall>err st'. fetchSecurityKey e f now st = (Inl err, st') \<longrightarrow>
            cache_value st' = cache_value st \<and> cache_fetchedAt st' = cache_fetchedAt st)"
proof (intro conjI impI allI)
  assume good: "truthy payload \<and> member payload (ustr ''code'') = Some (JNum 200)
      \<and> truthy_opt (member payload (ustr ''data''))"
  then obtain data where data: "member payload (ustr ''data'') = Some data"
    by (cases "member payload (ustr ''data'')") auto
  with good assms have "fetchSecurityKey e f now st =
      (Inr data, st\<lparr> requests := requests st @ [key_url e], cache_value := data,
                    cache_fetchedAt := now \<rparr>)"
    by (auto simp add: fetchSecurityKey_def Let_def)
  with data show "\<exists>data. member payload (ustr ''data'') = Some data
      \<and> fetchSecurityKey e f now st =
          (Inr data, st\<lparr> requests := requests st @ [key_url e], cache_value := data,
                        cache_fetchedAt := now \<rparr>)"
    by blast
next
  assume "\<not> (truthy payload \<and> member payload (ustr ''code'') = Some (JNum 200)
      \<and> truthy_opt (member payload (ustr ''data'')))"
  with assms show "fetchSecurityKey e f now st =
      (Inl (UnexpectedResponse payload), st\<lparr> requests := requests st @ [key_url e] \<rparr>)"
    by (auto simp add: fetchSecurityKey_def Let_def split: option.splits)
next
  fix err st'
  assume "fetchSecurityKey e f now st = (Inl err, st')"
  then show "cache_value st' = cache_value st"
    by (simp add: fetchSecurityKey_failure_keeps_cache)
next
  fix err st'
  assume "fetchSecurityKey e f now st = (Inl err, st')"
  then show "cache_fetchedAt st' = cache_fetchedAt st"
    by (simp add: fetchSecurityKey_failure_keeps_cache)
qed

text \<open>Witness: the key endpoint answers \<open>{"code": 200, "data": "QUJD"}\<close> with status 200
  to a store that holds no key.\<close>

theorem fetchSecurityKey_upstream_witness:
  "fetchSecurityKey default_env (\<lambda>u. Inr (key_response 200)) 1000 initial_store =
     (Inr (JStr (ustr ''QUJD'')),
      initial_store\<lparr> requests := requests initial_store @ [key_url default_env],
        cache_value := JStr (ustr ''QUJD''), cache_fetchedAt := 1000 \<rparr>)"
proof -
  have miss: "\<not> (truthy (cache_value initial_store)
      \<and> 1000 - cache_fetchedAt initial_store < SECURITY_TTL_MS)"
    by (simp add: initial_store_def)
  have payload: "JObj [(ustr ''code'', JNum 200), (ustr ''data'', JStr (ustr ''QUJD''))] =
      (case json_body (key_response 200) of Inl err \<Rightarrow> JNull | Inr p \<Rightarrow> p)"
    by (simp add: key_response_def json_body_def)
  have good: "truthy (JObj [(ustr ''code'', JNum 200), (ustr ''data'', JStr (ustr ''QUJD''))])
      \<and> member (JObj [(ustr ''code'', JNum 200), (ustr ''data'', JStr (ustr ''QUJD''))])
          (ustr ''code'') = Some (JNum 200)
      \<and> truthy_opt (member (JObj [(ustr ''code'', JNum 200), (ustr ''data'', JStr (ustr ''QUJD''))])
          (ustr ''data''))"
    by (simp add: ustr_def)
  have data: "member (JObj [(ustr ''code'', JNum 200), (ustr ''data'', JStr (ustr ''QUJD''))])
      (ustr ''data'') = Some (JStr (ustr ''QUJD''))"
    by (simp add: ustr_def)
  from fetchSecurityKey_upstream [of initial_store 1000 "\<lambda>u. Inr (key_response 200)" default_env
      "key_response 200", OF miss refl payload] good data
  show ?thesis by auto
qed

text \<open>
  C5 as stated fails on a response that is not an HTTP success: the call succeeds on
  status 500 when the body is \<open>{"code": 200, "data": "QUJD"}\<close>, and replaces the cache.
\<close>

theorem fetchSecurityKey_http_status_counterexample:
  "\<not> http_ok (key_response 500)
   \<and> fetchSecurityKey default_env (\<lambda>u. Inr (key_response 500)) 1000 initial_store =
       (Inr (JStr (ustr ''QUJD'')),
        \<lparr> cache_value = JStr (ustr ''QUJD''), cache_fetchedAt = 1000,
          requests = [key_url default_env] \<rparr>)"
  by (simp add: key_response_fetch) (simp add: http_ok_def key_response_def)

section \<open>Properties of the response extractor\<close>

lemma payload_data_object:
  "map_of kvs (ustr ''data'') = Some (JStr d) \<Longrightarrow> trim d \<noteq> [] \<Longrightarrow>
   payload_data (JObj kvs) = Some (trim d)"
  by (simp add: payload_data_def)

lemma payload_data_NoneI:
  "\<not> (\<exists>kvs d. p = JObj kvs \<and> map_of kvs (ustr ''data'') = Some (JStr d) \<and> trim d \<noteq> []) \<Longrightarrow>
   payload_data p = None"
  by (cases p) (auto simp add: payload_data_def split: option.splits json.splits)

lemma str_includes_json: "str_includes (ustr ''application/json'') (ustr ''application/json'')"
  by (simp add: ustr_def is_prefix_def)

lemma str_includes_json_charset:
  "str_includes (ustr ''application/json; charset=utf-8'') (ustr ''application/json'')"
  by (simp add: ustr_def is_prefix_def)

lemma not_str_includes_text: "\<not> str_includes (ustr ''text/plain'') (ustr ''application/json'')"
  by (simp add: ustr_def is_prefix_def)

lemma trim_abc: "trim (ustr ''  abc123==  '') = ustr ''abc123==''"
  by (simp add: trim_def ustr_def is_ws_def)

lemma trim_empty: "trim [] = []"
  by (simp add: trim_def)

lemma contentType_body_update: "contentType (r\<lparr> body := b \<rparr>) = contentType r"
  by (simp add: contentType_def)

lemma text_fallback_no_body:
  "body r = NoBody \<Longrightarrow> text_fallback r = Inl (EmptyResponse (status r) (url r))"
  by (simp add: text_fallback_def text_after_json_def trim_empty)

lemma text_fallback_body: "body r = Body j \<Longrightarrow> text_fallback r = Inl TypeError"
  by (simp add: text_fallback_def text_after_json_def)

text \<open>
  The extractor returns a string on one path only, the \<open>data\<close> member of a JSON object:
  the text of a response is never the result.
\<close>

lemma extractCipherFromResponse_result:
  assumes "extractCipherFromResponse r = Inr c"
  shows "\<exists>kvs d. json_body r = Inr (JObj kvs) \<and> map_of kvs (ustr ''data'') = Some (JStr d)
           \<and> c = trim d \<and> trim d \<noteq> []"
proof -
  have no_text: "text_fallback r \<noteq> Inr c"
    by (cases "body r") (simp_all add: text_fallback_no_body text_fallback_body)
  from assms no_text obtain p where p: "json_body r = Inr p" "payload_data p = Some c"
    by (auto simp add: extractCipherFromResponse_def split: if_splits sum.splits option.splits)
  from p(2) obtain kvs d where "p = JObj kvs" "map_of kvs (ustr ''data'') = Some (JStr d)"
      "c = trim d" "trim d \<noteq> []"
    by (cases p) (auto simp add: payload_data_def split: if_splits option.splits json.splits)
  with p(1) show ?thesis by blast
qed

text \<open>
  C4. The claim has the extractor return the trimmed text of the response when the
  body holds no ciphertext as JSON, and the source means to (the comment at line 73
  reads \<open>ignore and fall back to text\<close>), but \<open>response.json()\<close> at line 56 or 65 has read
  the body by the time line 76 calls \<open>response.text()\<close>. For the body \<open> xyz \<close> sent as
  \<open>text/plain\<close> with status 200 the claim gives \<open>xyz\<close>; the code fails with a \<open>TypeError\<close>.
\<close>

theorem extractCipherFromResponse_text_unread:
  "json_body plain_text_answer = Inl SyntaxError
   \<and> \<not> str_includes (contentType plain_text_answer) (ustr ''application/json'')
   \<and> extractCipherFromResponse plain_text_answer = Inl TypeError"
  by (simp add: extractCipherFromResponse_def json_body_def contentType_def text_fallback_def
      text_after_json_def plain_text_answer_def not_str_includes_text)

text \<open>
  C8, as the code has it. When \<open>response.json()\<close> fails under a content type that names
  JSON, the failure is the result. Under any other content type the failure is
  swallowed: the extractor goes on to lines 76 to 82, the result is the same whatever
  the failure was, and for a response without a body it is the error that carries the
  status and the URL.
\<close>

theorem extractCipherFromResponse_parse_error:
  "(str_includes (contentType r) (ustr ''application/json'') \<and> json_body r = Inl err \<longrightarrow>
      extractCipherFromResponse r = Inl err)
   \<and> (\<not> str_includes (contentType r) (ustr ''application/json'') \<and> json_body r = Inl err \<longrightarrow>
      extractCipherFromResponse r = text_fallback r)
   \<and> (\<not> str_includes (contentType r) (ustr ''application/json'') \<longrightarrow>
      extractCipherFromResponse (r\<lparr> body := Body (Inl err) \<rparr>) =
        extractCipherFromResponse (r\<lparr> body := Body (Inl err') \<rparr>))
   \<and> (\<not> str_includes (contentType r) (ustr ''application/json'') \<and> body r = NoBody \<longrightarrow>
      extractCipherFromResponse r = Inl (EmptyResponse (status r) (url r)))"
proof (intro conjI impI)
  assume "str_includes (contentType r) (ustr ''application/json'') \<and> json_body r = Inl err"
  then show "extractCipherFromResponse r = Inl err"
    by (simp add: extractCipherFromResponse_def)
next
  assume "\<not> str_includes (contentType r) (ustr ''application/json'') \<and> json_body r = Inl err"
  then show "extractCipherFromResponse r = text_fallback r"
    by (simp add: extractCipherFromResponse_def)
next
  assume other: "\<not> str_includes (contentType r) (ustr ''application/json'')"
  have "extractCipherFromResponse (r\<lparr> body := Body (Inl x) \<rparr>) = Inl TypeError" for x
    using other
    by (simp add: extractCipherFromResponse_def contentType_body_update json_body_def
        text_fallback_body)
  then show "extractCipherFromResponse (r\<lparr> body := Body (Inl err) \<rparr>) =
      extractCipherFromResponse (r\<lparr> body := Body (Inl err') \<rparr>)"
    by simp
next
  assume "\<not> str_includes (contentType r) (ustr ''application/json'') \<and> body r = NoBody"
  then show "extractCipherFromResponse r = Inl (EmptyResponse (status r) (url r))"
    by (simp add: extractCipherFromResponse_def json_body_def text_fallback_no_body)
qed

text \<open>Witness: a 204 answer has no body and no content type; \<open>response.json()\<close> fails on
  it, the failure is swallowed and the result is the error with the status 204 and the
  URL. Under \<open>text/plain\<close> a failure to parse and a failure of the network end alike.\<close>

theorem extractCipherFromResponse_parse_error_witness:
  "json_body no_content = Inl SyntaxError
   \<and> extractCipherFromResponse no_content =
       Inl (EmptyResponse 204 (ustr ''https://api.fstcy.com/z''))
   \<and> extractCipherFromResponse (plain_text_answer\<lparr> body := Body (Inl SyntaxError) \<rparr>) =
       extractCipherFromResponse (plain_text_answer\<lparr> body := Body (Inl NetworkError) \<rparr>)"
proof -
  have failed: "json_body no_content = Inl SyntaxError" "body no_content = NoBody"
    by (simp_all add: json_body_def no_content_def)
  have other: "\<not> str_includes (contentType no_content) (ustr ''application/json'')"
      "\<not> str_includes (contentType plain_text_answer) (ustr ''application/json'')"
    by (simp_all add: contentType_def no_content_def plain_text_answer_def
        not_str_includes_text) (simp add: ustr_def)
  have fields: "status no_content = 204" "url no_content = ustr ''https://api.fstcy.com/z''"
    by (simp_all add: no_content_def)
  from extractCipherFromResponse_parse_error [of no_content SyntaxError SyntaxError]
    failed other
  have "extractCipherFromResponse no_content =
      Inl (EmptyResponse (status no_content) (url no_content))"
    by blast
  moreover from extractCipherFromResponse_parse_error
    [of plain_text_answer SyntaxError NetworkError] other
  have "extractCipherFromResponse (plain_text_answer\<lparr> body := Body (Inl SyntaxError) \<rparr>) =
      extractCipherFromResponse (plain_text_answer\<lparr> body := Body (Inl NetworkError) \<rparr>)"
    by blast
  ultimately show ?thesis
    using failed(1) by (simp only: fields)
qed

text \<open>
  C8 as stated fails under a declared JSON content type: \<open>response.json()\<close> fails on the
  malformed body and its error is the result of the extractor.
\<close>

theorem extractCipherFromResponse_propagates_counterexample:
  "str_includes (contentType json_labelled_page) (ustr ''application/json'')
   \<and> json_body json_labelled_page = Inl SyntaxError
   \<and> extractCipherFromResponse json_labelled_page = Inl SyntaxError"
  by (simp add: extractCipherFromResponse_def json_body_def contentType_def
      json_labelled_page_def str_includes_json_charset)

section \<open>Key derivation never fails on a string\<close>

text \<open>
  C7, as the code has it. Key derivation has no failure path on strings: for every
  input string, well-formed base64 or not, it returns the first 16 bytes of the
  leniently decoded key, the suffix and sixteen zero bytes.
\<close>

theorem deriveKeyFromSec_total:
  "deriveKeyFromSec e (JStr s) =
     Inr (take 16 (base64_decode s @ ascii_bytes (SUFFIX e) @ replicate 16 0))"
  by (simp add: deriveKeyFromSec_def Let_def)

text \<open>
  C7 as stated fails on a string that is not base64: \<open>not base64!\<close> gives a key (the
  decoder skips the blank and the exclamation mark), not an encoding error.
\<close>

theorem deriveKeyFromSec_malformed_counterexample:
  "\<not> wellformed_base64 (ustr ''not base64!'')
   \<and> deriveKeyFromSec default_env (JStr (ustr ''not base64!'')) =
       Inr [0x9E, 0x8B, 0x5B, 0x6A, 0xC7, 0xBA, 0x54, 0x21, 0x42, 0x67, 0x4A, 0x42, 0, 0, 0, 0]"
proof -
  have pad: "replicate 4 (0::byte) = [0, 0, 0, 0]"
    by (simp add: numeral_eq_Suc)
  have "\<not> wellformed_base64 (ustr ''not base64!'')"
    by (simp add: wellformed_base64_def ustr_def)
  moreover have "deriveKeyFromSec default_env (JStr (ustr ''not base64!'')) =
       Inr [0x9E, 0x8B, 0x5B, 0x6A, 0xC7, 0xBA, 0x54, 0x21, 0x42, 0x67, 0x4A, 0x42, 0, 0, 0, 0]"
    by (simp add: deriveKeyFromSec_def default_env_def ustr_def base64_decode_def unbase64_def
        ascii_bytes_def Let_def pad)
  ultimately show ?thesis by simp
qed

section \<open>Properties of decryptPayload\<close>

text \<open>
  C9. With a key supplied by the caller (a truthy \<open>secB64\<close>; the empty string is the
  subject of C10), \<open>decryptPayload\<close> does not consult the key store: the store after the
  call is the store before it, cached value, timestamp and request log, and the result
  is that of decrypting with the supplied key, whatever the clock, \<open>fetch\<close> and the cache.
\<close>

theorem decryptPayload_supplied_key:
  "truthy secB64 \<Longrightarrow>
   decryptPayload e f now st cipherText secB64 =
     (case decryptB64 e cipherText secB64 of
        Inl err \<Rightarrow> Inl err
      | Inr decrypted \<Rightarrow> JSON_parse decrypted, st)"
  by (simp add: decryptPayload_def split: sum.splits)

text \<open>Witness: an empty ciphertext with the key \<open>QUJD\<close> fails before any key is derived,
  and the store is untouched although the upstream is down.\<close>

theorem decryptPayload_supplied_key_witness:
  "decryptPayload default_env (\<lambda>u. Inr down_response) 1000 initial_store [] (JStr (ustr ''QUJD'')) =
     (Inl EmptyCiphertext, initial_store)"
proof -
  have "truthy (JStr (ustr ''QUJD''))"
    by (simp add: ustr_def)
  from decryptPayload_supplied_key [OF this, of default_env "\<lambda>u. Inr down_response" 1000
      initial_store "[]"]
  show ?thesis by (simp add: decryptB64_def)
qed

text \<open>
  C10. A supplied key that is the empty string is treated as no key: the call is the
  call with \<open>null\<close>, it takes the key from \<open>fetchSecurityKey\<close> (the failure of which is
  the result), and it issues a fetch whenever the cache holds no key younger than the
  TTL. No key is derived from the empty string.
\<close>

theorem decryptPayload_empty_key:
  "decryptPayload e f now st cipherText (JStr []) = decryptPayload e f now st cipherText JNull
   \<and> decryptPayload e f now st cipherText (JStr []) =
       (case fetchSecurityKey e f now st of
          (Inl err, st') \<Rightarrow> (Inl err, st')
        | (Inr securityKey, st') \<Rightarrow>
            (case decryptB64 e cipherText securityKey of
               Inl err \<Rightarrow> Inl err
             | Inr decrypted \<Rightarrow> JSON_parse decrypted, st'))
   \<and> (\<not> (truthy (cache_value st) \<and> now - cache_fetchedAt st < SECURITY_TTL_MS) \<longrightarrow>
        requests (snd (decryptPayload e f now st cipherText (JStr []))) =
          requests st @ [key_url e])"
proof (intro conjI impI)
  show "decryptPayload e f now st cipherText (JStr []) = decryptPayload e f now st cipherText JNull"
    by (simp add: decryptPayload_def)
  show eq: "decryptPayload e f now st cipherText (JStr []) =
       (case fetchSecurityKey e f now st of
          (Inl err, st') \<Rightarrow> (Inl err, st')
        | (Inr securityKey, st') \<Rightarrow>
            (case decryptB64 e cipherText securityKey of
               Inl err \<Rightarrow> Inl err
             | Inr decrypted \<Rightarrow> JSON_parse decrypted, st'))"
    by (simp add: decryptPayload_def split: prod.splits sum.splits)
  assume "\<not> (truthy (cache_value st) \<and> now - cache_fetchedAt st < SECURITY_TTL_MS)"
  from fetchSecurityKey_miss_requests [OF this, of e f]
  show "requests (snd (decryptPayload e f now st cipherText (JStr []))) = requests st @ [key_url e]"
    unfolding eq by (cases "fetchSecurityKey e f now st") (auto split: sum.splits)
qed

text \<open>Witness: with an empty cache and the upstream down, the call with the empty
  string as key fetches, and fails with the key store's error.\<close>

theorem decryptPayload_empty_key_witness:
  "decryptPayload default_env (\<lambda>u. Inr down_response) 1000 initial_store (ustr ''AAAA'') (JStr []) =
     (Inl (UnexpectedResponse JNull),
      initial_store\<lparr> requests := [key_url default_env] \<rparr>)"
proof -
  have miss: "\<not> truthy (cache_value initial_store)"
    by (simp add: initial_store_def)
  have log: "requests initial_store = []"
    by (simp add: initial_store_def)
  from decryptPayload_empty_key [of default_env "\<lambda>u. Inr down_response" 1000 initial_store
      "ustr ''AAAA''"]
  have "decryptPayload default_env (\<lambda>u. Inr down_response) 1000 initial_store (ustr ''AAAA'')
      (JStr []) =
       (case fetchSecurityKey default_env (\<lambda>u. Inr down_response) 1000 initial_store of
          (Inl err, st') \<Rightarrow> (Inl err, st')
        | (Inr securityKey, st') \<Rightarrow>
            (case decryptB64 default_env (ustr ''AAAA'') securityKey of
               Inl err \<Rightarrow> Inl err
             | Inr decrypted \<Rightarrow> JSON_parse decrypted, st'))"
    by blast
  then show ?thesis
    by (simp add: down_response_fetch [OF miss] log)
qed

section \<open>The inverse cipher inverts the cipher\<close>

text \<open>The example of FIPS 197, Appendix C.1, through key expansion and inverse cipher.\<close>

lemma fips197_example:
  "InvCipher
     (KeyExpansion [0x00, 0x01, 0x02, 0x03, 0x04, 0x05, 0x06, 0x07,
                    0x08, 0x09, 0x0A, 0x0B, 0x0C, 0x0D, 0x0E, 0x0F])
     [0x69, 0xC4, 0xE0, 0xD8, 0x6A, 0x7B, 0x04, 0x30, 0xD8, 0xCD, 0xB7, 0x80, 0x70, 0xB4, 0xC5, 0x5A] =
     [0x00, 0x11, 0x22, 0x33, 0x44, 0x55, 0x66, 0x77, 0x88, 0x99, 0xAA, 0xBB, 0xCC, 0xDD, 0xEE, 0xFF]"
  by (simp add: KeyExpansion_def Let_def SubByte_def sbox_table_def inv_round_def InvSubBytes_def
      InvSubByte_def inv_sbox_table_def AddRoundKey_def InvMixColumn_def mul9_def mul11_def
      mul13_def mul14_def xtime_def)

lemma xtime_xor: "xtime (a XOR b) = xtime a XOR xtime b"
  by (auto simp add: xtime_def bit_xor_iff xor.assoc xor.commute xor.left_commute)

lemma xor_cancel3: "(a::byte) XOR (a XOR b) = b"
  by (simp add: xor.assoc [symmetric])

lemma InvMixColumn_MixColumn:
  "InvMixColumn (xtime a XOR (xtime b XOR b) XOR c XOR d)
      (a XOR xtime b XOR (xtime c XOR c) XOR d)
      (a XOR b XOR xtime c XOR (xtime d XOR d))
      ((xtime a XOR a) XOR b XOR c XOR xtime d) = [a, b, c, d]"
  by (simp add: InvMixColumn_def mul9_def mul11_def mul13_def mul14_def xtime_xor
      xor.assoc xor.commute xor.left_commute xor_cancel3)

lemma InvShiftRows_ShiftRows: "InvShiftRows (ShiftRows s) = s"
  by (induct s rule: ShiftRows.induct) simp_all

lemma length_ShiftRows: "length (ShiftRows s) = length s"
  by (induct s rule: ShiftRows.induct) simp_all

lemma InvMixColumns_MixColumns: "InvMixColumns (MixColumns s) = s"
  by (induct s rule: MixColumns.induct) (simp_all add: MixColumn_def InvMixColumn_MixColumn)

lemma length_MixColumns: "length (MixColumns s) = length s"
  by (induct s rule: MixColumns.induct) (simp_all add: MixColumn_def)

lemma all_belowD: "all_below P n \<Longrightarrow> i < n \<Longrightarrow> P i"
  by (induct n) (auto simp add: less_Suc_eq)

lemma sbox_inverse_table:
  "all_below (\<lambda>i. inv_sbox_table ! unat (sbox_table ! i) = of_nat i) 256"
  by code_simp

lemma InvSubByte_SubByte: "InvSubByte (SubByte x) = x"
proof -
  have "unat x < 2 ^ LENGTH(8)"
    by (rule unsigned_less)
  then have "unat x < 256" by simp
  from all_belowD [OF sbox_inverse_table this] show ?thesis
    by (simp add: InvSubByte_def SubByte_def)
qed

lemma InvSubBytes_SubBytes: "InvSubBytes (SubBytes s) = s"
  by (simp add: InvSubBytes_def SubBytes_def InvSubByte_SubByte map_idI)

lemma AddRoundKey_twice: "length s \<le> length k \<Longrightarrow> AddRoundKey (AddRoundKey s k) k = s"
proof (induct s arbitrary: k)
  case Nil
  then show ?case by (simp add: AddRoundKey_def)
next
  case (Cons x s)
  then obtain y k' where k: "k = y # k'" by (cases k) auto
  with Cons have "AddRoundKey (AddRoundKey s k') k' = s" by simp
  with k show ?case
    by (simp add: AddRoundKey_def xor.assoc)
qed

lemma length_AddRoundKey: "length (AddRoundKey s k) = min (length s) (length k)"
  by (simp add: AddRoundKey_def)

lemma length_enc_round: "length k = 16 \<Longrightarrow> length s = 16 \<Longrightarrow> length (enc_round s k) = 16"
  by (simp add: enc_round_def length_AddRoundKey length_MixColumns length_ShiftRows SubBytes_def)

lemma length_SubBytes: "length (SubBytes s) = length s"
  by (simp add: SubBytes_def)

lemma inv_round_enc_round:
  assumes "length k = 16" and "length s = 16"
  shows "inv_round k (enc_round s k) = s"
proof -
  have "length (MixColumns (ShiftRows (SubBytes s))) \<le> length k"
    using assms by (simp add: length_MixColumns length_ShiftRows length_SubBytes)
  then have "AddRoundKey (enc_round s k) k = MixColumns (ShiftRows (SubBytes s))"
    unfolding enc_round_def by (rule AddRoundKey_twice)
  then show ?thesis
    by (simp add: inv_round_def InvMixColumns_MixColumns InvShiftRows_ShiftRows
        InvSubBytes_SubBytes)
qed

lemma length_foldl_enc_round:
  "\<forall>k\<in>set ks. length k = 16 \<Longrightarrow> length s = 16 \<Longrightarrow> length (foldl enc_round s ks) = 16"
  by (induct ks arbitrary: s) (simp_all add: length_enc_round)

lemma foldr_inv_round_foldl_enc_round:
  "\<forall>k\<in>set ks. length k = 16 \<Longrightarrow> length s = 16 \<Longrightarrow>
   foldr inv_round ks (foldl enc_round s ks) = s"
  by (induct ks arbitrary: s) (simp_all add: length_enc_round inv_round_enc_round)

lemma InvCipher_Cipher:
  assumes p: "length p = 16" and ks: "2 \<le> length ks" and len: "\<forall>k\<in>set ks. length k = 16"
  shows "InvCipher ks (Cipher ks p) = p"
proof -
  from ks obtain k0 kr where split: "ks = k0 # kr"
    by (cases ks) auto
  with ks have kr: "kr \<noteq> []"
    by auto
  define x where "x = foldl enc_round (AddRoundKey p k0) (butlast kr)"
  have k0: "length k0 = 16" and last: "length (last kr) = 16"
    and mid: "\<forall>k\<in>set (butlast kr). length k = 16"
    using len split kr by (auto dest: in_set_butlastD)
  have start: "length (AddRoundKey p k0) = 16"
    using p k0 by (simp add: length_AddRoundKey)
  have x: "length x = 16"
    unfolding x_def using mid start by (rule length_foldl_enc_round)
  have "length (ShiftRows (SubBytes x)) \<le> length (last kr)"
    using x last by (simp add: length_ShiftRows length_SubBytes)
  then have "AddRoundKey (AddRoundKey (ShiftRows (SubBytes x)) (last kr)) (last kr) =
      ShiftRows (SubBytes x)"
    by (rule AddRoundKey_twice)
  then have "InvSubBytes (InvShiftRows (AddRoundKey (Cipher ks p) (last kr))) = x"
    by (simp add: split x_def InvShiftRows_ShiftRows InvSubBytes_SubBytes)
  moreover have "foldr inv_round (butlast kr) x = AddRoundKey p k0"
    unfolding x_def using mid start by (rule foldr_inv_round_foldl_enc_round)
  moreover have "AddRoundKey (AddRoundKey p k0) k0 = p"
    using p k0 by (simp add: AddRoundKey_twice)
  ultimately show ?thesis
    by (simp add: split)
qed

lemma length_Cipher:
  assumes p: "length p = 16" and ks: "2 \<le> length ks" and len: "\<forall>k\<in>set ks. length k = 16"
  shows "length (Cipher ks p) = 16"
proof -
  from ks obtain k0 kr where split: "ks = k0 # kr"
    by (cases ks) auto
  with ks have kr: "kr \<noteq> []"
    by auto
  have k0: "length k0 = 16" and last: "length (last kr) = 16"
    and mid: "\<forall>k\<in>set (butlast kr). length k = 16"
    using len split kr by (auto dest: in_set_butlastD)
  have "length (AddRoundKey p k0) = 16"
    using p k0 by (simp add: length_AddRoundKey)
  with mid have "length (foldl enc_round (AddRoundKey p k0) (butlast kr)) = 16"
    by (rule length_foldl_enc_round)
  with last show ?thesis
    by (simp add: split length_AddRoundKey length_ShiftRows length_SubBytes)
qed

lemma length_next_round_key: "length (next_round_key rc k) = length k"
  by (induct rc k rule: next_round_key.induct) (simp_all add: Let_def)

lemma expand_from_lengths: "\<forall>k'\<in>set (expand_from k rcs). length k' = length k"
  by (induct rcs arbitrary: k) (simp_all add: length_next_round_key)

lemma length_expand_from: "length (expand_from k rcs) = Suc (length rcs)"
  by (induct rcs arbitrary: k) simp_all

lemma KeyExpansion_lengths:
  "length key = 16 \<Longrightarrow> \<forall>k\<in>set (KeyExpansion key). length k = 16"
  by (auto simp del: expand_from.simps simp add: KeyExpansion_def expand_from_lengths)

lemma length_KeyExpansion: "2 \<le> length (KeyExpansion key)"
  by (simp add: KeyExpansion_def length_expand_from)

lemma cbc_decrypt_cbc_encrypt:
  assumes ks: "2 \<le> length ks" and len: "\<forall>k\<in>set ks. length k = 16"
  shows "length p = 16 * n \<Longrightarrow> length prev = 16 \<Longrightarrow>
    cbc_decrypt n ks prev (cbc_encrypt n ks prev p) = p"
proof (induct n arbitrary: p prev)
  case 0
  then show ?case by simp
next
  case (Suc n)
  define c where "c = Cipher ks (AddRoundKey (take 16 p) prev)"
  have block: "length (AddRoundKey (take 16 p) prev) = 16"
    using Suc.prems by (simp add: length_AddRoundKey)
  have c: "length c = 16"
    unfolding c_def using block ks len by (rule length_Cipher)
  have "InvCipher ks c = AddRoundKey (take 16 p) prev"
    unfolding c_def using block ks len by (rule InvCipher_Cipher)
  moreover have "AddRoundKey (AddRoundKey (take 16 p) prev) prev = take 16 p"
    using Suc.prems by (simp add: AddRoundKey_twice)
  moreover have "cbc_decrypt n ks c (cbc_encrypt n ks c (drop 16 p)) = drop 16 p"
    using Suc.prems c by (intro Suc.hyps) simp_all
  ultimately show ?case
    using c by (simp add: c_def [symmetric])
qed

lemma length_cbc_encrypt:
  assumes ks: "2 \<le> length ks" and len: "\<forall>k\<in>set ks. length k = 16"
  shows "length p = 16 * n \<Longrightarrow> length prev = 16 \<Longrightarrow>
    length (cbc_encrypt n ks prev p) = 16 * n"
proof (induct n arbitrary: p prev)
  case 0
  then show ?case by simp
next
  case (Suc n)
  have block: "length (AddRoundKey (take 16 p) prev) = 16"
    using Suc.prems by (simp add: length_AddRoundKey)
  have c: "length (Cipher ks (AddRoundKey (take 16 p) prev)) = 16"
    using block ks len by (rule length_Cipher)
  with Suc.prems Suc.hyps [of "drop 16 p" "Cipher ks (AddRoundKey (take 16 p) prev)"]
  show ?case by simp
qed

section \<open>Padding and base64 are inverted\<close>

lemma pkcs7_unpad_pkcs7_pad: "pkcs7_unpad (pkcs7_pad p) = Inr p"
proof -
  define n where "n = 16 - length p mod 16"
  have n: "0 < n" "n \<le> 16"
    by (simp_all add: n_def)
  then have u: "unat (of_nat n :: byte) = n"
    by (simp add: unat_of_nat)
  have pad: "pkcs7_pad p = p @ replicate n (of_nat n)"
    by (simp add: pkcs7_pad_def n_def)
  have last: "last (pkcs7_pad p) = of_nat n"
    using n by (simp add: pad)
  have tail: "drop (length (pkcs7_pad p) - n) (pkcs7_pad p) = replicate n (of_nat n)"
    and front: "take (length (pkcs7_pad p) - n) (pkcs7_pad p) = p"
    by (simp_all add: pad)
  show ?thesis
    using n by (simp add: pkcs7_unpad_def last u Let_def tail front list_all_iff)
qed

lemma length_pkcs7_pad: "length (pkcs7_pad p) = 16 * (length (pkcs7_pad p) div 16)"
proof -
  have "length (pkcs7_pad p) = length p + (16 - length p mod 16)"
    by (simp add: pkcs7_pad_def)
  then have "length (pkcs7_pad p) mod 16 = 0"
    by presburger
  then show ?thesis by presburger
qed

lemma pkcs7_pad_nonempty: "0 < length (pkcs7_pad p) div 16"
proof -
  have "length (pkcs7_pad p) = length p + (16 - length p mod 16)"
    by (simp add: pkcs7_pad_def)
  then show ?thesis by presburger
qed

lemma unbase64_b64char_table:
  "all_below (\<lambda>n. (ucast (b64char n) :: byte) \<noteq> 0x3D \<and> unbase64 (ucast (b64char n)) = Some n) 64"
  by code_simp

lemma sextets_b64char: "n < 64 \<Longrightarrow> sextets (b64char n # cs) = n # sextets cs"
  using all_belowD [OF unbase64_b64char_table, of n] by simp

lemma sextets_pad: "sextets (0x3D # cs) = []"
  by simp

lemma b64_bounds:
  fixes u v w :: nat
  assumes "u < 256" "v < 256" "w < 256"
  shows "u div 4 < 64" "u mod 4 * 16 + v div 16 < 64" "v mod 16 * 4 + w div 64 < 64" "w mod 64 < 64"
    "u mod 4 * 16 < 64" "v mod 16 * 4 < 64"
  using assms by simp_all

lemma b64_join1:
  fixes u v :: nat
  assumes "v < 256"
  shows "u div 4 * 4 + (u mod 4 * 16 + v div 16) div 16 = u"
proof -
  have "v div 16 < 16" using assms by simp
  then have "(u mod 4 * 16 + v div 16) div 16 = u mod 4" by simp
  then show ?thesis by simp
qed

lemma b64_join2:
  fixes u v w :: nat
  assumes "v < 256" "w < 256"
  shows "(u mod 4 * 16 + v div 16) mod 16 * 16 + (v mod 16 * 4 + w div 64) div 4 = v"
proof -
  have "v div 16 < 16" "w div 64 < 4" using assms by simp_all
  then have "(u mod 4 * 16 + v div 16) mod 16 = v div 16" "(v mod 16 * 4 + w div 64) div 4 = v mod 16"
    by simp_all
  then show ?thesis by simp
qed

lemma b64_join3:
  fixes v w :: nat
  assumes "w < 256"
  shows "(v mod 16 * 4 + w div 64) mod 4 * 64 + w mod 64 = w"
proof -
  have "w div 64 < 4" using assms by simp
  then have "(v mod 16 * 4 + w div 64) mod 4 = w div 64" by simp
  then show ?thesis by simp
qed

lemma b64_join1_last: "(u::nat) div 4 * 4 + (u mod 4 * 16) div 16 = u"
  by simp

lemma b64_join2_last:
  fixes u v :: nat
  assumes "v < 256"
  shows "(u mod 4 * 16 + v div 16) mod 16 * 16 + (v mod 16 * 4) div 4 = v"
proof -
  have "v div 16 < 16" using assms by simp
  then have "(u mod 4 * 16 + v div 16) mod 16 = v div 16" by simp
  then show ?thesis by simp
qed

lemma unat_byte_less: "unat (x :: byte) < 256"
proof -
  have "unat x < 2 ^ LENGTH(8)" by (rule unsigned_less)
  then show ?thesis by simp
qed

lemma byte_sextets:
  fixes x y z :: byte
  shows "unat x div 4 < 64" "unat x mod 4 * 16 + unat y div 16 < 64"
    "unat y mod 16 * 4 + unat z div 64 < 64" "unat z mod 64 < 64"
    "unat x mod 4 * 16 < 64" "unat y mod 16 * 4 < 64"
  using b64_bounds [OF unat_byte_less [of x] unat_byte_less [of y] unat_byte_less [of z]]
  by blast+

lemma byte_joins:
  fixes x y z :: byte
  shows "of_nat (unat x div 4 * 4 + (unat x mod 4 * 16 + unat y div 16) div 16) = x"
    "of_nat ((unat x mod 4 * 16 + unat y div 16) mod 16 * 16
        + (unat y mod 16 * 4 + unat z div 64) div 4) = y"
    "of_nat ((unat y mod 16 * 4 + unat z div 64) mod 4 * 64 + unat z mod 64) = z"
    "of_nat (unat x div 4 * 4 + (unat x mod 4 * 16) div 16) = x"
    "of_nat ((unat x mod 4 * 16 + unat y div 16) mod 16 * 16 + (unat y mod 16 * 4) div 4) = y"
  by (simp_all only: b64_join1 [OF unat_byte_less] b64_join2 [OF unat_byte_less unat_byte_less]
      b64_join3 [OF unat_byte_less] b64_join1_last b64_join2_last [OF unat_byte_less]
      of_nat_unat ucast_id)

lemma base64_decode_four:
  "base64_decode
     (b64char (unat x div 4) # b64char (unat x mod 4 * 16 + unat y div 16)
        # b64char (unat y mod 16 * 4 + unat z div 64) # b64char (unat z mod 64) # cs) =
   x # y # z # base64_decode cs"
  unfolding base64_decode_def
  by (simp only: sextets_b64char [OF byte_sextets(1)] sextets_b64char [OF byte_sextets(2)]
      sextets_b64char [OF byte_sextets(3)] sextets_b64char [OF byte_sextets(4)]
      b64_pack.simps byte_joins append_Cons append_Nil)

lemma base64_decode_three:
  "base64_decode
     [b64char (unat x div 4), b64char (unat x mod 4 * 16 + unat y div 16),
      b64char (unat y mod 16 * 4), 0x3D] = [x, y]"
  unfolding base64_decode_def
  by (simp only: sextets_b64char [OF byte_sextets(1)] sextets_b64char [OF byte_sextets(2)]
      sextets_b64char [OF byte_sextets(6)] sextets_pad b64_pack.simps byte_joins)

lemma base64_decode_two:
  "base64_decode [b64char (unat x div 4), b64char (unat x mod 4 * 16), 0x3D, 0x3D] = [x]"
  unfolding base64_decode_def
  by (simp only: sextets_b64char [OF byte_sextets(1)] sextets_b64char [OF byte_sextets(5)]
      sextets_pad b64_pack.simps byte_joins)

lemma base64_decode_base64_encode: "base64_decode (base64_encode bs) = bs"
proof (induct bs rule: base64_encode.induct)
  case (1 x y z rest)
  then show ?case
    by (simp only: base64_encode.simps append_Cons append_Nil base64_decode_four)
next
  case (2 x y)
  show ?case
    by (simp only: base64_encode.simps base64_decode_three)
next
  case (3 x)
  show ?case
    by (simp only: base64_encode.simps base64_decode_two)
next
  case 4
  show ?case by (simp add: base64_decode_def)
qed

lemma base64_encode_nonempty: "bs \<noteq> [] \<Longrightarrow> base64_encode bs \<noteq> []"
  by (induct bs rule: base64_encode.induct) simp_all

subsection \<open>Lengths on the decryption side, and the padding check\<close>

lemma length_InvShiftRows: "length (InvShiftRows s) = length s"
  by (induct s rule: InvShiftRows.induct) simp_all

lemma length_InvMixColumns: "length (InvMixColumns s) = length s"
  by (induct s rule: InvMixColumns.induct) (simp_all add: InvMixColumn_def)

lemma length_inv_round: "length k = 16 \<Longrightarrow> length s = 16 \<Longrightarrow> length (inv_round k s) = 16"
  by (simp add: inv_round_def InvSubBytes_def length_InvShiftRows length_InvMixColumns
      length_AddRoundKey)

lemma length_foldr_inv_round:
  "\<forall>k\<in>set ks. length k = 16 \<Longrightarrow> length s = 16 \<Longrightarrow> length (foldr inv_round ks s) = 16"
  by (induct ks) (simp_all add: length_inv_round)

lemma length_InvCipher:
  assumes c: "length c = 16" and ks: "2 \<le> length ks" and len: "\<forall>k\<in>set ks. length k = 16"
  shows "length (InvCipher ks c) = 16"
proof -
  from ks obtain k0 kr where split: "ks = k0 # kr"
    by (cases ks) auto
  with ks have kr: "kr \<noteq> []"
    by auto
  have k0: "length k0 = 16" and last: "length (last kr) = 16"
    and mid: "\<forall>k\<in>set (butlast kr). length k = 16"
    using len split kr by (auto dest: in_set_butlastD)
  have "length (InvSubBytes (InvShiftRows (AddRoundKey c (last kr)))) = 16"
    using c last by (simp add: InvSubBytes_def length_InvShiftRows length_AddRoundKey)
  with mid have "length (foldr inv_round (butlast kr)
      (InvSubBytes (InvShiftRows (AddRoundKey c (last kr))))) = 16"
    by (rule length_foldr_inv_round)
  with k0 show ?thesis
    by (simp add: split length_AddRoundKey)
qed

lemma length_cbc_decrypt:
  assumes ks: "2 \<le> length ks" and len: "\<forall>k\<in>set ks. length k = 16"
  shows "length c = 16 * n \<Longrightarrow> length prev = 16 \<Longrightarrow> length (cbc_decrypt n ks prev c) = 16 * n"
proof (induct n arbitrary: c prev)
  case 0
  then show ?case by simp
next
  case (Suc n)
  have block: "length (take 16 c) = 16"
    using Suc.prems by simp
  have "length (InvCipher ks (take 16 c)) = 16"
    using block ks len by (rule length_InvCipher)
  moreover have "length (cbc_decrypt n ks (take 16 c) (drop 16 c)) = 16 * n"
    using Suc.prems block by (intro Suc.hyps) simp_all
  ultimately show ?case
    using Suc.prems by (simp add: length_AddRoundKey)
qed

lemma list_all_same: "list_all (\<lambda>b. b = x) xs \<longleftrightarrow> xs = replicate (length xs) x"
  by (induct xs) auto

lemma pkcs7_unpad_padding_valid:
  assumes "16 \<le> length p"
  shows "pkcs7_unpad p = (if padding_valid p then Inr (strip_padding p) else Inl DecryptionError)"
proof -
  have nonempty: "p \<noteq> []"
    using assms by auto
  show ?thesis
  proof (cases "1 \<le> unat (last p) \<and> unat (last p) \<le> 16")
    case True
    with assms have "length (drop (length p - unat (last p)) p) = unat (last p)"
      by simp
    then have "list_all (\<lambda>b. b = last p) (drop (length p - unat (last p)) p) \<longleftrightarrow>
        drop (length p - unat (last p)) p = replicate (unat (last p)) (last p)"
      by (simp add: list_all_same)
    with True assms nonempty show ?thesis
      by (simp add: pkcs7_unpad_def padding_valid_def strip_padding_def Let_def)
  next
    case False
    then show ?thesis
      by (auto simp add: pkcs7_unpad_def padding_valid_def Let_def)
  qed
qed

section \<open>The round trip of the cipher\<close>

lemma length_deriveKeyFromSec: "deriveKeyFromSec e secB64 = Inr key \<Longrightarrow> length key = 16"
  by (auto simp add: deriveKeyFromSec_def Let_def split: sum.splits if_splits)

lemma deriveKeyFromSec_string:
  "\<exists>key. deriveKeyFromSec e (JStr k) = Inr key \<and> length key = 16"
  by (auto simp add: deriveKeyFromSec_def Let_def)

lemma aes_128_cbc_round_trip:
  assumes key: "length key = 16" and iv: "length iv = 16"
  shows "aes_128_cbc_encrypt key iv p \<noteq> []"
    and "aes_128_cbc_decrypt key iv (aes_128_cbc_encrypt key iv p) = Inr p"
proof -
  define n where "n = length (pkcs7_pad p) div 16"
  define c where "c = aes_128_cbc_encrypt key iv p"
  have ks: "2 \<le> length (KeyExpansion key)" "\<forall>k\<in>set (KeyExpansion key). length k = 16"
    using key by (simp_all add: length_KeyExpansion KeyExpansion_lengths)
  have padded: "length (pkcs7_pad p) = 16 * n"
    unfolding n_def by (rule length_pkcs7_pad)
  have n: "0 < n"
    unfolding n_def by (rule pkcs7_pad_nonempty)
  have c: "c = cbc_encrypt n (KeyExpansion key) iv (pkcs7_pad p)"
    by (simp add: c_def aes_128_cbc_encrypt_def n_def)
  have len: "length c = 16 * n"
    unfolding c using ks padded iv by (rule length_cbc_encrypt)
  with n have nonempty: "c \<noteq> []" and whole: "length c mod 16 = 0" and count: "length c div 16 = n"
    by auto
  have "cbc_decrypt n (KeyExpansion key) iv c = pkcs7_pad p"
    unfolding c using ks padded iv by (rule cbc_decrypt_cbc_encrypt)
  with nonempty whole count show "aes_128_cbc_decrypt key iv c = Inr p"
    by (simp add: aes_128_cbc_decrypt_def pkcs7_unpad_pkcs7_pad)
  from nonempty show "c \<noteq> []" .
qed

section \<open>Tampering with the ciphertext\<close>

lemma derive_QUJD:
  "deriveKeyFromSec default_env (JStr (ustr ''QUJD'')) =
     Inr [0x41, 0x42, 0x43, 0x54, 0x21, 0x42, 0x67, 0x4A, 0x42, 0x00, 0x00, 0x00, 0x00, 0x00, 0x00, 0x00]"
proof -
  have pad: "replicate 7 (0::byte) = [0, 0, 0, 0, 0, 0, 0]"
    by (simp add: numeral_eq_Suc)
  show ?thesis
    by (simp add: deriveKeyFromSec_def default_env_def ustr_def base64_decode_def unbase64_def
        ascii_bytes_def Let_def pad)
qed

lemma round_keys_QUJD:
  "KeyExpansion [0x41, 0x42, 0x43, 0x54, 0x21, 0x42, 0x67, 0x4A, 0x42, 0x00, 0x00, 0x00, 0x00, 0x00, 0x00, 0x00] =
     [[0x41, 0x42, 0x43, 0x54, 0x21, 0x42, 0x67, 0x4A, 0x42, 0x00, 0x00, 0x00, 0x00, 0x00, 0x00, 0x00],
      [0x23, 0x21, 0x20, 0x37, 0x02, 0x63, 0x47, 0x7D, 0x40, 0x63, 0x47, 0x7D, 0x40, 0x63, 0x47, 0x7D],
      [0xDA, 0x81, 0xDF, 0x3E, 0xD8, 0xE2, 0x98, 0x43, 0x98, 0x81, 0xDF, 0x3E, 0xD8, 0xE2, 0x98, 0x43],
      [0x46, 0xC7, 0xC5, 0x5F, 0x9E, 0x25, 0x5D, 0x1C, 0x06, 0xA4, 0x82, 0x22, 0xDE, 0x46, 0x1A, 0x61],
      [0x14, 0x65, 0x2A, 0x42, 0x8A, 0x40, 0x77, 0x5E, 0x8C, 0xE4, 0xF5, 0x7C, 0x52, 0xA2, 0xEF, 0x1D],
      [0x3E, 0xBA, 0x8E, 0x42, 0xB4, 0xFA, 0xF9, 0x1C, 0x38, 0x1E, 0x0C, 0x60, 0x6A, 0xBC, 0xE3, 0x7D],
      [0x7B, 0xAB, 0x71, 0x40, 0xCF, 0x51, 0x88, 0x5C, 0xF7, 0x4F, 0x84, 0x3C, 0x9D, 0xF3, 0x67, 0x41],
      [0x36, 0x2E, 0xF2, 0x1E, 0xF9, 0x7F, 0x7A, 0x42, 0x0E, 0x30, 0xFE, 0x7E, 0x93, 0xC3, 0x99, 0x3F],
      [0x98, 0xC0, 0x87, 0xC2, 0x61, 0xBF, 0xFD, 0x80, 0x6F, 0x8F, 0x03, 0xFE, 0xFC, 0x4C, 0x9A, 0xC1],
      [0xAA, 0x78, 0xFF, 0x72, 0xCB, 0xC7, 0x02, 0xF2, 0xA4, 0x48, 0x01, 0x0C, 0x58, 0x04, 0x9B, 0xCD],
      [0x6E, 0x6C, 0x42, 0x18, 0xA5, 0xAB, 0x40, 0xEA, 0x01, 0xE3, 0x41, 0xE6, 0x59, 0xE7, 0xDA, 0x2B]]"
  by (simp add: KeyExpansion_def Let_def SubByte_def sbox_table_def)

lemma block_0:
  "InvCipher
     [[0x41, 0x42, 0x43, 0x54, 0x21, 0x42, 0x67, 0x4A, 0x42, 0x00, 0x00, 0x00, 0x00, 0x00, 0x00, 0x00],
      [0x23, 0x21, 0x20, 0x37, 0x02, 0x63, 0x47, 0x7D, 0x40, 0x63, 0x47, 0x7D, 0x40, 0x63, 0x47, 0x7D],
      [0xDA, 0x81, 0xDF, 0x3E, 0xD8, 0xE2, 0x98, 0x43, 0x98, 0x81, 0xDF, 0x3E, 0xD8, 0xE2, 0x98, 0x43],
      [0x46, 0xC7, 0xC5, 0x5F, 0x9E, 0x25, 0x5D, 0x1C, 0x06, 0xA4, 0x82, 0x22, 0xDE, 0x46, 0x1A, 0x61],
      [0x14, 0x65, 0x2A, 0x42, 0x8A, 0x40, 0x77, 0x5E, 0x8C, 0xE4, 0xF5, 0x7C, 0x52, 0xA2, 0xEF, 0x1D],
      [0x3E, 0xBA, 0x8E, 0x42, 0xB4, 0xFA, 0xF9, 0x1C, 0x38, 0x1E, 0x0C, 0x60, 0x6A, 0xBC, 0xE3, 0x7D],
      [0x7B, 0xAB, 0x71, 0x40, 0xCF, 0x51, 0x88, 0x5C, 0xF7, 0x4F, 0x84, 0x3C, 0x9D, 0xF3, 0x67, 0x41],
      [0x36, 0x2E, 0xF2, 0x1E, 0xF9, 0x7F, 0x7A, 0x42, 0x0E, 0x30, 0xFE, 0x7E, 0x93, 0xC3, 0x99, 0x3F],
      [0x98, 0xC0, 0x87, 0xC2, 0x61, 0xBF, 0xFD, 0x80, 0x6F, 0x8F, 0x03, 0xFE, 0xFC, 0x4C, 0x9A, 0xC1],
      [0xAA, 0x78, 0xFF, 0x72, 0xCB, 0xC7, 0x02, 0xF2, 0xA4, 0x48, 0x01, 0x0C, 0x58, 0x04, 0x9B, 0xCD],
      [0x6E, 0x6C, 0x42, 0x18, 0xA5, 0xAB, 0x40, 0xEA, 0x01, 0xE3, 0x41, 0xE6, 0x59, 0xE7, 0xDA, 0x2B]]
     [0x57, 0x4D, 0x59, 0x65, 0x12, 0x4A, 0x8C, 0x54, 0x24, 0x82, 0xAA, 0x12, 0xB8, 0x17, 0x5B, 0xF3] =
     [0x3A, 0x60, 0x37, 0x3D, 0x55, 0x2E, 0x02, 0x68, 0x78, 0x22, 0x63, 0x6F, 0x6F, 0x7A, 0x75, 0x6A]"
  by (simp add: inv_round_def InvSubBytes_def InvSubByte_def inv_sbox_table_def AddRoundKey_def
      InvMixColumn_def mul9_def mul11_def mul13_def mul14_def xtime_def)

lemma block_1:
  "InvCipher
     [[0x41, 0x42, 0x43, 0x54, 0x21, 0x42, 0x67, 0x4A, 0x42, 0x00, 0x00, 0x00, 0x00, 0x00, 0x00, 0x00],
      [0x23, 0x21, 0x20, 0x37, 0x02, 0x63, 0x47, 0x7D, 0x40, 0x63, 0x47, 0x7D, 0x40, 0x63, 0x47, 0x7D],
      [0xDA, 0x81, 0xDF, 0x3E, 0xD8, 0xE2, 0x98, 0x43, 0x98, 0x81, 0xDF, 0x3E, 0xD8, 0xE2, 0x98, 0x43],
      [0x46, 0xC7, 0xC5, 0x5F, 0x9E, 0x25, 0x5D, 0x1C, 0x06, 0xA4, 0x82, 0x22, 0xDE, 0x46, 0x1A, 0x61],
      [0x14, 0x65, 0x2A, 0x42, 0x8A, 0x40, 0x77, 0x5E, 0x8C, 0xE4, 0xF5, 0x7C, 0x52, 0xA2, 0xEF, 0x1D],
      [0x3E, 0xBA, 0x8E, 0x42, 0xB4, 0xFA, 0xF9, 0x1C, 0x38, 0x1E, 0x0C, 0x60, 0x6A, 0xBC, 0xE3, 0x7D],
      [0x7B, 0xAB, 0x71, 0x40, 0xCF, 0x51, 0x88, 0x5C, 0xF7, 0x4F, 0x84, 0x3C, 0x9D, 0xF3, 0x67, 0x41],
      [0x36, 0x2E, 0xF2, 0x1E, 0xF9, 0x7F, 0x7A, 0x42, 0x0E, 0x30, 0xFE, 0x7E, 0x93, 0xC3, 0x99, 0x3F],
      [0x98, 0xC0, 0x87, 0xC2, 0x61, 0xBF, 0xFD, 0x80, 0x6F, 0x8F, 0x03, 0xFE, 0xFC, 0x4C, 0x9A, 0xC1],
      [0xAA, 0x78, 0xFF, 0x72, 0xCB, 0xC7, 0x02, 0xF2, 0xA4, 0x48, 0x01, 0x0C, 0x58, 0x04, 0x9B, 0xCD],
      [0x6E, 0x6C, 0x42, 0x18, 0xA5, 0xAB, 0x40, 0xEA, 0x01, 0xE3, 0x41, 0xE6, 0x59, 0xE7, 0xDA, 0x2B]]
     [0x9F, 0x11, 0x29, 0x98, 0xFE, 0x18, 0x34, 0xBE, 0x42, 0xB3, 0x85, 0x51, 0x3E, 0xF8, 0x4E, 0x5E] =
     [0x26, 0x2C, 0x3D, 0x0C, 0x60, 0x30, 0xEE, 0x20, 0x40, 0xEA, 0xDB, 0x7E, 0xD0, 0x72, 0x2D, 0x95]"
  by (simp add: inv_round_def InvSubBytes_def InvSubByte_def inv_sbox_table_def AddRoundKey_def
      InvMixColumn_def mul9_def mul11_def mul13_def mul14_def xtime_def)

lemma block_2:
  "InvCipher
     [[0x41, 0x42, 0x43, 0x54, 0x21, 0x42, 0x67, 0x4A, 0x42, 0x00, 0x00, 0x00, 0x00, 0x00, 0x00, 0x00],
      [0x23, 0x21, 0x20, 0x37, 0x02, 0x63, 0x47, 0x7D, 0x40, 0x63, 0x47, 0x7D, 0x40, 0x63, 0x47, 0x7D],
      [0xDA, 0x81, 0xDF, 0x3E, 0xD8, 0xE2, 0x98, 0x43, 0x98, 0x81, 0xDF, 0x3E, 0xD8, 0xE2, 0x98, 0x43],
      [0x46, 0xC7, 0xC5, 0x5F, 0x9E, 0x25, 0x5D, 0x1C, 0x06, 0xA4, 0x82, 0x22, 0xDE, 0x46, 0x1A, 0x61],
      [0x14, 0x65, 0x2A, 0x42, 0x8A, 0x40, 0x77, 0x5E, 0x8C, 0xE4, 0xF5, 0x7C, 0x52, 0xA2, 0xEF, 0x1D],
      [0x3E, 0xBA, 0x8E, 0x42, 0xB4, 0xFA, 0xF9, 0x1C, 0x38, 0x1E, 0x0C, 0x60, 0x6A, 0xBC, 0xE3, 0x7D],
      [0x7B, 0xAB, 0x71, 0x40, 0xCF, 0x51, 0x88, 0x5C, 0xF7, 0x4F, 0x84, 0x3C, 0x9D, 0xF3, 0x67, 0x41],
      [0x36, 0x2E, 0xF2, 0x1E, 0xF9, 0x7F, 0x7A, 0x42, 0x0E, 0x30, 0xFE, 0x7E, 0x93, 0xC3, 0x99, 0x3F],
      [0x98, 0xC0, 0x87, 0xC2, 0x61, 0xBF, 0xFD, 0x80, 0x6F, 0x8F, 0x03, 0xFE, 0xFC, 0x4C, 0x9A, 0xC1],
      [0xAA, 0x78, 0xFF, 0x72, 0xCB, 0xC7, 0x02, 0xF2, 0xA4, 0x48, 0x01, 0x0C, 0x58, 0x04, 0x9B, 0xCD],
      [0x6E, 0x6C, 0x42, 0x18, 0xA5, 0xAB, 0x40, 0xEA, 0x01, 0xE3, 0x41, 0xE6, 0x59, 0xE7, 0xDA, 0x2B]]
     [0x29, 0x63, 0xD1, 0xE9, 0x0A, 0x9C, 0xE1, 0x2F, 0xCA, 0x3B, 0x2F, 0xD3, 0x18, 0x3E, 0x25, 0xF2] =
     [0xBF, 0x74, 0x59, 0xF1, 0x8D, 0x77, 0x50, 0xDB, 0x62, 0xD4, 0xF0, 0x38, 0x5A, 0x9D, 0x6C, 0x72]"
  by (simp add: inv_round_def InvSubBytes_def InvSubByte_def inv_sbox_table_def AddRoundKey_def
      InvMixColumn_def mul9_def mul11_def mul13_def mul14_def xtime_def)

lemma block_3:
  "InvCipher
     [[0x41, 0x42, 0x43, 0x54, 0x21, 0x42, 0x67, 0x4A, 0x42, 0x00, 0x00, 0x00, 0x00, 0x00, 0x00, 0x00],
      [0x23, 0x21, 0x20, 0x37, 0x02, 0x63, 0x47, 0x7D, 0x40, 0x63, 0x47, 0x7D, 0x40, 0x63, 0x47, 0x7D],
      [0xDA, 0x81, 0xDF, 0x3E, 0xD8, 0xE2, 0x98, 0x43, 0x98, 0x81, 0xDF, 0x3E, 0xD8, 0xE2, 0x98, 0x43],
      [0x46, 0xC7, 0xC5, 0x5F, 0x9E, 0x25, 0x5D, 0x1C, 0x06, 0xA4, 0x82, 0x22, 0xDE, 0x46, 0x1A, 0x61],
      [0x14, 0x65, 0x2A, 0x42, 0x8A, 0x40, 0x77, 0x5E, 0x8C, 0xE4, 0xF5, 0x7C, 0x52, 0xA2, 0xEF, 0x1D],
      [0x3E, 0xBA, 0x8E, 0x42, 0xB4, 0xFA, 0xF9, 0x1C, 0x38, 0x1E, 0x0C, 0x60, 0x6A, 0xBC, 0xE3, 0x7D],
      [0x7B, 0xAB, 0x71, 0x40, 0xCF, 0x51, 0x88, 0x5C, 0xF7, 0x4F, 0x84, 0x3C, 0x9D, 0xF3, 0x67, 0x41],
      [0x36, 0x2E, 0xF2, 0x1E, 0xF9, 0x7F, 0x7A, 0x42, 0x0E, 0x30, 0xFE, 0x7E, 0x93, 0xC3, 0x99, 0x3F],
      [0x98, 0xC0, 0x87, 0xC2, 0x61, 0xBF, 0xFD, 0x80, 0x6F, 0x8F, 0x03, 0xFE, 0xFC, 0x4C, 0x9A, 0xC1],
      [0xAA, 0x78, 0xFF, 0x72, 0xCB, 0xC7, 0x02, 0xF2, 0xA4, 0x48, 0x01, 0x0C, 0x58, 0x04, 0x9B, 0xCD],
      [0x6E, 0x6C, 0x42, 0x18, 0xA5, 0xAB, 0x40, 0xEA, 0x01, 0xE3, 0x41, 0xE6, 0x59, 0xE7, 0xDA, 0x2B]]
     [0x40, 0x17, 0x45, 0x35, 0x8B, 0xBB, 0x26, 0x96, 0xB1, 0x78, 0xB5, 0x5F, 0x7D, 0x7C, 0xF1, 0xAE] =
     [0x0B, 0x0A, 0xB5, 0xCB, 0x30, 0xA9, 0xD2, 0x1E, 0xFF, 0x46, 0x29, 0xD5, 0x1E, 0x38, 0x23, 0xF4]"
  by (simp add: inv_round_def InvSubBytes_def InvSubByte_def inv_sbox_table_def AddRoundKey_def
      InvMixColumn_def mul9_def mul11_def mul13_def mul14_def xtime_def)

lemma block_4:
  "InvCipher
     [[0x41, 0x42, 0x43, 0x54, 0x21, 0x42, 0x67, 0x4A, 0x42, 0x00, 0x00, 0x00, 0x00, 0x00, 0x00, 0x00],
      [0x23, 0x21, 0x20, 0x37, 0x02, 0x63, 0x47, 0x7D, 0x40, 0x63, 0x47, 0x7D, 0x40, 0x63, 0x47, 0x7D],
      [0xDA, 0x81, 0xDF, 0x3E, 0xD8, 0xE2, 0x98, 0x43, 0x98, 0x81, 0xDF, 0x3E, 0xD8, 0xE2, 0x98, 0x43],
      [0x46, 0xC7, 0xC5, 0x5F, 0x9E, 0x25, 0x5D, 0x1C, 0x06, 0xA4, 0x82, 0x22, 0xDE, 0x46, 0x1A, 0x61],
      [0x14, 0x65, 0x2A, 0x42, 0x8A, 0x40, 0x77, 0x5E, 0x8C, 0xE4, 0xF5, 0x7C, 0x52, 0xA2, 0xEF, 0x1D],
      [0x3E, 0xBA, 0x8E, 0x42, 0xB4, 0xFA, 0xF9, 0x1C, 0x38, 0x1E, 0x0C, 0x60, 0x6A, 0xBC, 0xE3, 0x7D],
      [0x7B, 0xAB, 0x71, 0x40, 0xCF, 0x51, 0x88, 0x5C, 0xF7, 0x4F, 0x84, 0x3C, 0x9D, 0xF3, 0x67, 0x41],
      [0x36, 0x2E, 0xF2, 0x1E, 0xF9, 0x7F, 0x7A, 0x42, 0x0E, 0x30, 0xFE, 0x7E, 0x93, 0xC3, 0x99, 0x3F],
      [0x98, 0xC0, 0x87, 0xC2, 0x61, 0xBF, 0xFD, 0x80, 0x6F, 0x8F, 0x03, 0xFE, 0xFC, 0x4C, 0x9A, 0xC1],
      [0xAA, 0x78, 0xFF, 0x72, 0xCB, 0xC7, 0x02, 0xF2, 0xA4, 0x48, 0x01, 0x0C, 0x58, 0x04, 0x9B, 0xCD],
      [0x6E, 0x6C, 0x42, 0x18, 0xA5, 0xAB, 0x40, 0xEA, 0x01, 0xE3, 0x41, 0xE6, 0x59, 0xE7, 0xDA, 0x2B]]
     [0x9F, 0x04, 0x29, 0x98, 0xFE, 0x18, 0x34, 0xBE, 0x42, 0xB3, 0x85, 0x51, 0x3E, 0xF8, 0x4E, 0x5E] =
     [0x02, 0x2C, 0x06, 0x58, 0x37, 0x2A, 0xB2, 0x3B, 0x41, 0xBE, 0x9D, 0x5C, 0xFA, 0x78, 0x78, 0xBF]"
  by (simp add: inv_round_def InvSubBytes_def InvSubByte_def inv_sbox_table_def AddRoundKey_def
      InvMixColumn_def mul9_def mul11_def mul13_def mul14_def xtime_def)

lemma cbc_decrypt_numeral:
  "cbc_decrypt (numeral n) ks prev c =
     AddRoundKey (InvCipher ks (take 16 c)) prev
       @ cbc_decrypt (pred_numeral n) ks (take 16 c) (drop 16 c)"
  by (simp add: numeral_eq_Suc)

lemma sample_bytes:
  "base64_decode sample_ciphertext =
     [0x57, 0x4D, 0x59, 0x65, 0x12, 0x4A, 0x8C, 0x54, 0x24, 0x82, 0xAA, 0x12, 0xB8, 0x17, 0x5B, 0xF3,
     0x9F, 0x11, 0x29, 0x98, 0xFE, 0x18, 0x34, 0xBE, 0x42, 0xB3, 0x85, 0x51, 0x3E, 0xF8, 0x4E, 0x5E,
     0x29, 0x63, 0xD1, 0xE9, 0x0A, 0x9C, 0xE1, 0x2F, 0xCA, 0x3B, 0x2F, 0xD3, 0x18, 0x3E, 0x25, 0xF2,
     0x40, 0x17, 0x45, 0x35, 0x8B, 0xBB, 0x26, 0x96, 0xB1, 0x78, 0xB5, 0x5F, 0x7D, 0x7C, 0xF1, 0xAE]"
  by (simp add: sample_ciphertext_def base64_decode_def ustr_def unbase64_def)

lemma tampered_bytes:
  "base64_decode tampered_ciphertext =
     [0x57, 0x4D, 0x59, 0x65, 0x12, 0x4A, 0x8C, 0x54, 0x24, 0x82, 0xAA, 0x12, 0xB8, 0x17, 0x5B, 0xF3,
     0x9F, 0x04, 0x29, 0x98, 0xFE, 0x18, 0x34, 0xBE, 0x42, 0xB3, 0x85, 0x51, 0x3E, 0xF8, 0x4E, 0x5E,
     0x29, 0x63, 0xD1, 0xE9, 0x0A, 0x9C, 0xE1, 0x2F, 0xCA, 0x3B, 0x2F, 0xD3, 0x18, 0x3E, 0x25, 0xF2,
     0x40, 0x17, 0x45, 0x35, 0x8B, 0xBB, 0x26, 0x96, 0xB1, 0x78, 0xB5, 0x5F, 0x7D, 0x7C, 0xF1, 0xAE]"
  by (simp add: tampered_ciphertext_def base64_decode_def ustr_def unbase64_def)

lemma sample_cbc:
  "cbc_decrypt 4
     [[0x41, 0x42, 0x43, 0x54, 0x21, 0x42, 0x67, 0x4A, 0x42, 0x00, 0x00, 0x00, 0x00, 0x00, 0x00, 0x00],
      [0x23, 0x21, 0x20, 0x37, 0x02, 0x63, 0x47, 0x7D, 0x40, 0x63, 0x47, 0x7D, 0x40, 0x63, 0x47, 0x7D],
      [0xDA, 0x81, 0xDF, 0x3E, 0xD8, 0xE2, 0x98, 0x43, 0x98, 0x81, 0xDF, 0x3E, 0xD8, 0xE2, 0x98, 0x43],
      [0x46, 0xC7, 0xC5, 0x5F, 0x9E, 0x25, 0x5D, 0x1C, 0x06, 0xA4, 0x82, 0x22, 0xDE, 0x46, 0x1A, 0x61],
      [0x14, 0x65, 0x2A, 0x42, 0x8A, 0x40, 0x77, 0x5E, 0x8C, 0xE4, 0xF5, 0x7C, 0x52, 0xA2, 0xEF, 0x1D],
      [0x3E, 0xBA, 0x8E, 0x42, 0xB4, 0xFA, 0xF9, 0x1C, 0x38, 0x1E, 0x0C, 0x60, 0x6A, 0xBC, 0xE3, 0x7D],
      [0x7B, 0xAB, 0x71, 0x40, 0xCF, 0x51, 0x88, 0x5C, 0xF7, 0x4F, 0x84, 0x3C, 0x9D, 0xF3, 0x67, 0x41],
      [0x36, 0x2E, 0xF2, 0x1E, 0xF9, 0x7F, 0x7A, 0x42, 0x0E, 0x30, 0xFE, 0x7E, 0x93, 0xC3, 0x99, 0x3F],
      [0x98, 0xC0, 0x87, 0xC2, 0x61, 0xBF, 0xFD, 0x80, 0x6F, 0x8F, 0x03, 0xFE, 0xFC, 0x4C, 0x9A, 0xC1],
      [0xAA, 0x78, 0xFF, 0x72, 0xCB, 0xC7, 0x02, 0xF2, 0xA4, 0x48, 0x01, 0x0C, 0x58, 0x04, 0x9B, 0xCD],
      [0x6E, 0x6C, 0x42, 0x18, 0xA5, 0xAB, 0x40, 0xEA, 0x01, 0xE3, 0x41, 0xE6, 0x59, 0xE7, 0xDA, 0x2B]]
     [0x41, 0x42, 0x43, 0x54, 0x21, 0x42, 0x67, 0x4A, 0x42, 0x00, 0x00, 0x00, 0x00, 0x00, 0x00, 0x00]
     [0x57, 0x4D, 0x59, 0x65, 0x12, 0x4A, 0x8C, 0x54, 0x24, 0x82, 0xAA, 0x12, 0xB8, 0x17, 0x5B, 0xF3,
     0x9F, 0x11, 0x29, 0x98, 0xFE, 0x18, 0x34, 0xBE, 0x42, 0xB3, 0x85, 0x51, 0x3E, 0xF8, 0x4E, 0x5E,
     0x29, 0x63, 0xD1, 0xE9, 0x0A, 0x9C, 0xE1, 0x2F, 0xCA, 0x3B, 0x2F, 0xD3, 0x18, 0x3E, 0x25, 0xF2,
     0x40, 0x17, 0x45, 0x35, 0x8B, 0xBB, 0x26, 0x96, 0xB1, 0x78, 0xB5, 0x5F, 0x7D, 0x7C, 0xF1, 0xAE] =
     [0x7B, 0x22, 0x74, 0x69, 0x74, 0x6C, 0x65, 0x22, 0x3A, 0x22, 0x63, 0x6F, 0x6F, 0x7A, 0x75, 0x6A,
     0x71, 0x61, 0x64, 0x69, 0x72, 0x7A, 0x62, 0x74, 0x64, 0x68, 0x71, 0x6C, 0x68, 0x65, 0x76, 0x66,
     0x20, 0x65, 0x70, 0x69, 0x73, 0x6F, 0x64, 0x65, 0x20, 0x67, 0x75, 0x69, 0x64, 0x65, 0x22, 0x2C,
     0x22, 0x69, 0x64, 0x22, 0x3A, 0x35, 0x33, 0x31, 0x35, 0x7D, 0x06, 0x06, 0x06, 0x06, 0x06, 0x06]"
  by (simp del: InvCipher.simps add: cbc_decrypt_numeral block_0 block_1 block_2 block_3 block_4 AddRoundKey_def)

lemma sample_unpad:
  "pkcs7_unpad
     [0x7B, 0x22, 0x74, 0x69, 0x74, 0x6C, 0x65, 0x22, 0x3A, 0x22, 0x63, 0x6F, 0x6F, 0x7A, 0x75, 0x6A,
     0x71, 0x61, 0x64, 0x69, 0x72, 0x7A, 0x62, 0x74, 0x64, 0x68, 0x71, 0x6C, 0x68, 0x65, 0x76, 0x66,
     0x20, 0x65, 0x70, 0x69, 0x73, 0x6F, 0x64, 0x65, 0x20, 0x67, 0x75, 0x69, 0x64, 0x65, 0x22, 0x2C,
     0x22, 0x69, 0x64, 0x22, 0x3A, 0x35, 0x33, 0x31, 0x35, 0x7D, 0x06, 0x06, 0x06, 0x06, 0x06, 0x06] =
   Inr (ascii_bytes sample_text)"
  by (simp add: pkcs7_unpad_def Let_def sample_text_def ascii_bytes_def ustr_def)

lemma sample_plaintext:
  "aes_128_cbc_decrypt [0x41, 0x42, 0x43, 0x54, 0x21, 0x42, 0x67, 0x4A, 0x42, 0x00, 0x00, 0x00, 0x00, 0x00, 0x00, 0x00]
     [0x41, 0x42, 0x43, 0x54, 0x21, 0x42, 0x67, 0x4A, 0x42, 0x00, 0x00, 0x00, 0x00, 0x00, 0x00, 0x00]
     [0x57, 0x4D, 0x59, 0x65, 0x12, 0x4A, 0x8C, 0x54, 0x24, 0x82, 0xAA, 0x12, 0xB8, 0x17, 0x5B, 0xF3,
     0x9F, 0x11, 0x29, 0x98, 0xFE, 0x18, 0x34, 0xBE, 0x42, 0xB3, 0x85, 0x51, 0x3E, 0xF8, 0x4E, 0x5E,
     0x29, 0x63, 0xD1, 0xE9, 0x0A, 0x9C, 0xE1, 0x2F, 0xCA, 0x3B, 0x2F, 0xD3, 0x18, 0x3E, 0x25, 0xF2,
     0x40, 0x17, 0x45, 0x35, 0x8B, 0xBB, 0x26, 0x96, 0xB1, 0x78, 0xB5, 0x5F, 0x7D, 0x7C, 0xF1, 0xAE] =
   Inr (ascii_bytes sample_text)"
  by (simp add: aes_128_cbc_decrypt_def round_keys_QUJD) (simp only: sample_cbc sample_unpad)

lemma tampered_cbc:
  "cbc_decrypt 4
     [[0x41, 0x42, 0x43, 0x54, 0x21, 0x42, 0x67, 0x4A, 0x42, 0x00, 0x00, 0x00, 0x00, 0x00, 0x00, 0x00],
      [0x23, 0x21, 0x20, 0x37, 0x02, 0x63, 0x47, 0x7D, 0x40, 0x63, 0x47, 0x7D, 0x40, 0x63, 0x47, 0x7D],
      [0xDA, 0x81, 0xDF, 0x3E, 0xD8, 0xE2, 0x98, 0x43, 0x98, 0x81, 0xDF, 0x3E, 0xD8, 0xE2, 0x98, 0x43],
      [0x46, 0xC7, 0xC5, 0x5F, 0x9E, 0x25, 0x5D, 0x1C, 0x06, 0xA4, 0x82, 0x22, 0xDE, 0x46, 0x1A, 0x61],
      [0x14, 0x65, 0x2A, 0x42, 0x8A, 0x40, 0x77, 0x5E, 0x8C, 0xE4, 0xF5, 0x7C, 0x52, 0xA2, 0xEF, 0x1D],
      [0x3E, 0xBA, 0x8E, 0x42, 0xB4, 0xFA, 0xF9, 0x1C, 0x38, 0x1E, 0x0C, 0x60, 0x6A, 0xBC, 0xE3, 0x7D],
      [0x7B, 0xAB, 0x71, 0x40, 0xCF, 0x51, 0x88, 0x5C, 0xF7, 0x4F, 0x84, 0x3C, 0x9D, 0xF3, 0x67, 0x41],
      [0x36, 0x2E, 0xF2, 0x1E, 0xF9, 0x7F, 0x7A, 0x42, 0x0E, 0x30, 0xFE, 0x7E, 0x93, 0xC3, 0x99, 0x3F],
      [0x98, 0xC0, 0x87, 0xC2, 0x61, 0xBF, 0xFD, 0x80, 0x6F, 0x8F, 0x03, 0xFE, 0xFC, 0x4C, 0x9A, 0xC1],
      [0xAA, 0x78, 0xFF, 0x72, 0xCB, 0xC7, 0x02, 0xF2, 0xA4, 0x48, 0x01, 0x0C, 0x58, 0x04, 0x9B, 0xCD],
      [0x6E, 0x6C, 0x42, 0x18, 0xA5, 0xAB, 0x40, 0xEA, 0x01, 0xE3, 0x41, 0xE6, 0x59, 0xE7, 0xDA, 0x2B]]
     [0x41, 0x42, 0x43, 0x54, 0x21, 0x42, 0x67, 0x4A, 0x42, 0x00, 0x00, 0x00, 0x00, 0x00, 0x00, 0x00]
     [0x57, 0x4D, 0x59, 0x65, 0x12, 0x4A, 0x8C, 0x54, 0x24, 0x82, 0xAA, 0x12, 0xB8, 0x17, 0x5B, 0xF3,
     0x9F, 0x04, 0x29, 0x98, 0xFE, 0x18, 0x34, 0xBE, 0x42, 0xB3, 0x85, 0x51, 0x3E, 0xF8, 0x4E, 0x5E,
     0x29, 0x63, 0xD1, 0xE9, 0x0A, 0x9C, 0xE1, 0x2F, 0xCA, 0x3B, 0x2F, 0xD3, 0x18, 0x3E, 0x25, 0xF2,
     0x40, 0x17, 0x45, 0x35, 0x8B, 0xBB, 0x26, 0x96, 0xB1, 0x78, 0xB5, 0x5F, 0x7D, 0x7C, 0xF1, 0xAE] =
     [0x7B, 0x22, 0x74, 0x69, 0x74, 0x6C, 0x65, 0x22, 0x3A, 0x22, 0x63, 0x6F, 0x6F, 0x7A, 0x75, 0x6A,
     0x55, 0x61, 0x5F, 0x3D, 0x25, 0x60, 0x3E, 0x6F, 0x65, 0x3C, 0x37, 0x4E, 0x42, 0x6F, 0x23, 0x4C,
     0x20, 0x70, 0x70, 0x69, 0x73, 0x6F, 0x64, 0x65, 0x20, 0x67, 0x75, 0x69, 0x64, 0x65, 0x22, 0x2C,
     0x22, 0x69, 0x64, 0x22, 0x3A, 0x35, 0x33, 0x31, 0x35, 0x7D, 0x06, 0x06, 0x06, 0x06, 0x06, 0x06]"
  by (simp del: InvCipher.simps add: cbc_decrypt_numeral block_0 block_1 block_2 block_3 block_4 AddRoundKey_def)

lemma tampered_unpad:
  "pkcs7_unpad
     [0x7B, 0x22, 0x74, 0x69, 0x74, 0x6C, 0x65, 0x22, 0x3A, 0x22, 0x63, 0x6F, 0x6F, 0x7A, 0x75, 0x6A,
     0x55, 0x61, 0x5F, 0x3D, 0x25, 0x60, 0x3E, 0x6F, 0x65, 0x3C, 0x37, 0x4E, 0x42, 0x6F, 0x23, 0x4C,
     0x20, 0x70, 0x70, 0x69, 0x73, 0x6F, 0x64, 0x65, 0x20, 0x67, 0x75, 0x69, 0x64, 0x65, 0x22, 0x2C,
     0x22, 0x69, 0x64, 0x22, 0x3A, 0x35, 0x33, 0x31, 0x35, 0x7D, 0x06, 0x06, 0x06, 0x06, 0x06, 0x06] =
   Inr (ascii_bytes tampered_text)"
  by (simp add: pkcs7_unpad_def Let_def tampered_text_def ascii_bytes_def ustr_def)

lemma tampered_plaintext:
  "aes_128_cbc_decrypt [0x41, 0x42, 0x43, 0x54, 0x21, 0x42, 0x67, 0x4A, 0x42, 0x00, 0x00, 0x00, 0x00, 0x00, 0x00, 0x00]
     [0x41, 0x42, 0x43, 0x54, 0x21, 0x42, 0x67, 0x4A, 0x42, 0x00, 0x00, 0x00, 0x00, 0x00, 0x00, 0x00]
     [0x57, 0x4D, 0x59, 0x65, 0x12, 0x4A, 0x8C, 0x54, 0x24, 0x82, 0xAA, 0x12, 0xB8, 0x17, 0x5B, 0xF3,
     0x9F, 0x04, 0x29, 0x98, 0xFE, 0x18, 0x34, 0xBE, 0x42, 0xB3, 0x85, 0x51, 0x3E, 0xF8, 0x4E, 0x5E,
     0x29, 0x63, 0xD1, 0xE9, 0x0A, 0x9C, 0xE1, 0x2F, 0xCA, 0x3B, 0x2F, 0xD3, 0x18, 0x3E, 0x25, 0xF2,
     0x40, 0x17, 0x45, 0x35, 0x8B, 0xBB, 0x26, 0x96, 0xB1, 0x78, 0xB5, 0x5F, 0x7D, 0x7C, 0xF1, 0xAE] =
   Inr (ascii_bytes tampered_text)"
  by (simp add: aes_128_cbc_decrypt_def round_keys_QUJD) (simp only: tampered_cbc tampered_unpad)

lemma sample_decoded: "utf8_decode (ascii_bytes sample_text) = sample_text"
  by (simp add: sample_text_def ascii_bytes_def ustr_def utf8_step_def)

lemma tampered_decoded: "utf8_decode (ascii_bytes tampered_text) = tampered_text"
  by (simp add: tampered_text_def ascii_bytes_def ustr_def utf8_step_def)

lemma sample_parsed:
  "JSON_parse sample_text =
     Inr (JObj [(ustr ''title'', JStr (ustr ''coozujqadirzbtdhqlhevf episode guide'')),
                (ustr ''id'', JNum 5315)])"
  by (simp add: JSON_parse_def sample_text_def ustr_def parse_value.simps parse_members.simps
      skip_ws_def json_ws_def cons_fst_def obj_of_members_def is_prefix_def parse_number_def
      parse_unsigned_def parse_int_part_def parse_frac_def parse_exp_def number_value_def
      is_digit_def digits_val_def)

lemma tampered_parsed:
  "JSON_parse tampered_text =
     Inr (JObj [(ustr ''title'', JStr (ustr ''coozujUa_=%`>oe<7NBo#L ppisode guide'')),
                (ustr ''id'', JNum 5315)])"
  by (simp add: JSON_parse_def tampered_text_def ustr_def parse_value.simps parse_members.simps
      skip_ws_def json_ws_def cons_fst_def obj_of_members_def is_prefix_def parse_number_def
      parse_unsigned_def parse_int_part_def parse_frac_def parse_exp_def number_value_def
      is_digit_def digits_val_def)

lemma one_character:
  "length tampered_ciphertext = length sample_ciphertext
   \<and> length (filter (\<lambda>(a, b). a \<noteq> b) (zip sample_ciphertext tampered_ciphertext)) = 1"
  by (simp add: sample_ciphertext_def tampered_ciphertext_def ustr_def)

lemma one_byte:
  "length (filter (\<lambda>(a, b). a \<noteq> b)
     (zip (base64_decode sample_ciphertext) (base64_decode tampered_ciphertext))) = 1"
  by (simp add: sample_bytes tampered_bytes)

lemma sample_pipeline:
  "(case decryptB64 default_env sample_ciphertext (JStr (ustr ''QUJD'')) of
      Inl err \<Rightarrow> Inl err
    | Inr decrypted \<Rightarrow> JSON_parse decrypted) =
   Inr (JObj [(ustr ''title'', JStr (ustr ''coozujqadirzbtdhqlhevf episode guide'')),
              (ustr ''id'', JNum 5315)])"
proof -
  have "sample_ciphertext \<noteq> []"
    by (simp add: sample_ciphertext_def ustr_def)
  then have "decryptB64 default_env sample_ciphertext (JStr (ustr ''QUJD'')) = Inr sample_text"
    by (simp only: decryptB64_def derive_QUJD sample_bytes sample_plaintext sample_decoded
        if_False sum.case)
  then show ?thesis
    by (simp only: sample_parsed sum.case)
qed

lemma aes_128_cbc_decrypt_error:
  "aes_128_cbc_decrypt key iv c = Inl err \<Longrightarrow> err = DecryptionError"
  by (auto simp add: aes_128_cbc_decrypt_def pkcs7_unpad_def Let_def split: if_splits)

lemma JSON_parse_error: "JSON_parse t = Inl err \<Longrightarrow> err = SyntaxError"
  by (auto simp add: JSON_parse_def split: option.splits if_splits)

text \<open>
  C6, as the code has it. Take a ciphertext that is not empty, tampered with or not,
  and a key string; let \<open>data\<close> be the bytes the ciphertext decodes to and \<open>p\<close> what CBC
  decryption makes of them under the derived key, which is also the IV. The pipeline
  (\<open>decryptB64\<close>, then \<open>JSON.parse\<close>) ends in the decryption error exactly when \<open>data\<close> is
  empty or not a whole number of blocks of 16 bytes, or \<open>p\<close> does not end in a valid
  padding; in the syntax error of \<open>JSON.parse\<close> when the padding is valid and the text
  under it is not JSON; and otherwise in the parsed value of that text. Nothing else
  is checked: a modification that leaves padding and syntax valid is answered with a
  parsed value.
\<close>

theorem decrypt_pipeline_outcomes:
  assumes "cipherB64 \<noteq> []" and "deriveKeyFromSec e (JStr k) = Inr key"
    and "data = base64_decode cipherB64"
    and "p = cbc_decrypt (length data div 16) (KeyExpansion key) key data"
  shows "(case decryptB64 e cipherB64 (JStr k) of
            Inl err \<Rightarrow> Inl err
          | Inr decrypted \<Rightarrow> JSON_parse decrypted) =
         (if data = [] \<or> length data mod 16 \<noteq> 0 \<or> \<not> padding_valid p then Inl DecryptionError
          else case JSON_parse (utf8_decode (strip_padding p)) of
                 Inl err \<Rightarrow> Inl SyntaxError
               | Inr v \<Rightarrow> Inr v)"
proof -
  have pipeline: "(case decryptB64 e cipherB64 (JStr k) of
            Inl err \<Rightarrow> Inl err
          | Inr decrypted \<Rightarrow> JSON_parse decrypted) =
      (case aes_128_cbc_decrypt key key data of
         Inl err \<Rightarrow> Inl err
       | Inr plaintext \<Rightarrow> JSON_parse (utf8_decode plaintext))"
    using assms(1,2,3) by (simp add: decryptB64_def split: sum.splits)
  show ?thesis
  proof (cases "data = [] \<or> length data mod 16 \<noteq> 0")
    case True
    then have "aes_128_cbc_decrypt key key data = Inl DecryptionError"
      by (auto simp add: aes_128_cbc_decrypt_def)
    with True show ?thesis
      unfolding pipeline by auto
  next
    case False
    then have "0 < length data" and whole: "length data mod 16 = 0"
      by simp_all
    then have blocks: "length data = 16 * (length data div 16)" and some: "16 \<le> length data"
      by presburger+
    have key: "length key = 16"
      using assms(2) by (rule length_deriveKeyFromSec)
    have "length p = 16 * (length data div 16)"
      unfolding assms(4) using length_KeyExpansion KeyExpansion_lengths [OF key] blocks key
      by (rule length_cbc_decrypt)
    with blocks some have "16 \<le> length p"
      by simp
    then have unpad: "pkcs7_unpad p =
        (if padding_valid p then Inr (strip_padding p) else Inl DecryptionError)"
      by (rule pkcs7_unpad_padding_valid)
    have decrypted: "aes_128_cbc_decrypt key key data =
        (if padding_valid p then Inr (strip_padding p) else Inl DecryptionError)"
      using False assms(4) unpad by (simp add: aes_128_cbc_decrypt_def)
    show ?thesis
    proof (cases "padding_valid p")
      case invalid: False
      with False decrypted show ?thesis
        unfolding pipeline by simp
    next
      case valid: True
      show ?thesis
      proof (cases "JSON_parse (utf8_decode (strip_padding p))")
        case (Inl err)
        then have "err = SyntaxError"
          by (rule JSON_parse_error)
        with Inl valid False decrypted show ?thesis
          unfolding pipeline by simp
      next
        case (Inr v)
        with valid False decrypted show ?thesis
          unfolding pipeline by simp
      qed
    qed
  qed
qed

text \<open>Witness: the tampered ciphertext under the key \<open>QUJD\<close> decodes to four blocks, the
  data they decrypt to ends in six bytes of value 6, and the text under the padding
  parses: the answer is a parsed value.\<close>

theorem decrypt_pipeline_outcomes_witness:
  "tampered_ciphertext \<noteq> []
   \<and> length (base64_decode tampered_ciphertext) = 64
   \<and> (case decryptB64 default_env tampered_ciphertext (JStr (ustr ''QUJD'')) of
         Inl err \<Rightarrow> Inl err
       | Inr decrypted \<Rightarrow> JSON_parse decrypted) =
     Inr (JObj [(ustr ''title'', JStr (ustr ''coozujUa_=%`>oe<7NBo#L ppisode guide'')),
                (ustr ''id'', JNum 5315)])"
proof -
  have nonempty: "tampered_ciphertext \<noteq> []"
    by (simp add: tampered_ciphertext_def ustr_def)
  have blocks: "length (base64_decode tampered_ciphertext) = 64"
    by (simp add: tampered_bytes)
  have "length (base64_decode tampered_ciphertext) div 16 = 4"
    by (simp add: blocks)
  then have cbc: "cbc_decrypt (length (base64_decode tampered_ciphertext) div 16)
      (KeyExpansion 
        [0x41, 0x42, 0x43, 0x54, 0x21, 0x42, 0x67, 0x4A, 0x42, 0x00, 0x00, 0x00, 0x00, 0x00, 0x00, 0x00]) 
        [0x41, 0x42, 0x43, 0x54, 0x21, 0x42, 0x67, 0x4A, 0x42, 0x00, 0x00, 0x00, 0x00, 0x00, 0x00, 0x00] (base64_decode tampered_ciphertext) = 
        [0x7B, 0x22, 0x74, 0x69, 0x74, 0x6C, 0x65, 0x22, 0x3A, 0x22, 0x63, 0x6F, 0x6F, 0x7A, 0x75, 0x6A,
        0x55, 0x61, 0x5F, 0x3D, 0x25, 0x60, 0x3E, 0x6F, 0x65, 0x3C, 0x37, 0x4E, 0x42, 0x6F, 0x23, 0x4C,
        0x20, 0x70, 0x70, 0x69, 0x73, 0x6F, 0x64, 0x65, 0x20, 0x67, 0x75, 0x69, 0x64, 0x65, 0x22, 0x2C,
        0x22, 0x69, 0x64, 0x22, 0x3A, 0x35, 0x33, 0x31, 0x35, 0x7D, 0x06, 0x06, 0x06, 0x06, 0x06, 0x06]"
    by (simp only: round_keys_QUJD tampered_bytes tampered_cbc)
  have six: "replicate 6 (6 :: byte) = [6, 6, 6, 6, 6, 6]"
    by (simp add: numeral_eq_Suc)
  have valid: "padding_valid 
        [0x7B, 0x22, 0x74, 0x69, 0x74, 0x6C, 0x65, 0x22, 0x3A, 0x22, 0x63, 0x6F, 0x6F, 0x7A, 0x75, 0x6A,
        0x55, 0x61, 0x5F, 0x3D, 0x25, 0x60, 0x3E, 0x6F, 0x65, 0x3C, 0x37, 0x4E, 0x42, 0x6F, 0x23, 0x4C,
        0x20, 0x70, 0x70, 0x69, 0x73, 0x6F, 0x64, 0x65, 0x20, 0x67, 0x75, 0x69, 0x64, 0x65, 0x22, 0x2C,
        0x22, 0x69, 0x64, 0x22, 0x3A, 0x35, 0x33, 0x31, 0x35, 0x7D, 0x06, 0x06, 0x06, 0x06, 0x06, 0x06]"
    by (simp add: padding_valid_def six)
  have strip: "strip_padding 
        [0x7B, 0x22, 0x74, 0x69, 0x74, 0x6C, 0x65, 0x22, 0x3A, 0x22, 0x63, 0x6F, 0x6F, 0x7A, 0x75, 0x6A,
        0x55, 0x61, 0x5F, 0x3D, 0x25, 0x60, 0x3E, 0x6F, 0x65, 0x3C, 0x37, 0x4E, 0x42, 0x6F, 0x23, 0x4C,
        0x20, 0x70, 0x70, 0x69, 0x73, 0x6F, 0x64, 0x65, 0x20, 0x67, 0x75, 0x69, 0x64, 0x65, 0x22, 0x2C,
        0x22, 0x69, 0x64, 0x22, 0x3A, 0x35, 0x33, 0x31, 0x35, 0x7D, 0x06, 0x06, 0x06, 0x06, 0x06, 0x06] = ascii_bytes tampered_text"
    by (simp add: strip_padding_def tampered_text_def ascii_bytes_def ustr_def)
  from decrypt_pipeline_outcomes [OF nonempty derive_QUJD refl refl]
  have "(case decryptB64 default_env tampered_ciphertext (JStr (ustr ''QUJD'')) of
         Inl err \<Rightarrow> Inl err
       | Inr decrypted \<Rightarrow> JSON_parse decrypted) =
     Inr (JObj [(ustr ''title'', JStr (ustr ''coozujUa_=%`>oe<7NBo#L ppisode guide'')),
                (ustr ''id'', JNum 5315)])"
    unfolding cbc
    using blocks by (auto simp add: valid strip tampered_decoded tampered_parsed)
  with nonempty blocks show ?thesis
    by blast
qed

text \<open>
  C6 as stated fails. The two ciphertexts differ in one character, and the data they
  encode in one byte; under the key \<open>QUJD\<close> the first decrypts to
  \<open>{"title":"coozujqadirzbtdhqlhevf episode guide","id":5315}\<close>, and the tampered one
  passes the padding check and parses as JSON, to another title.
\<close>

theorem tampering_undetected_counterexample:
  "length tampered_ciphertext = length sample_ciphertext
   \<and> length (filter (\<lambda>(a, b). a \<noteq> b) (zip sample_ciphertext tampered_ciphertext)) = 1
   \<and> length (filter (\<lambda>(a, b). a \<noteq> b)
         (zip (base64_decode sample_ciphertext) (base64_decode tampered_ciphertext))) = 1
   \<and> (case decryptB64 default_env sample_ciphertext (JStr (ustr ''QUJD'')) of
         Inl err \<Rightarrow> Inl err
       | Inr decrypted \<Rightarrow> JSON_parse decrypted) =
     Inr (JObj [(ustr ''title'', JStr (ustr ''coozujqadirzbtdhqlhevf episode guide'')),
                (ustr ''id'', JNum 5315)])
   \<and> (case decryptB64 default_env tampered_ciphertext (JStr (ustr ''QUJD'')) of
         Inl err \<Rightarrow> Inl err
       | Inr decrypted \<Rightarrow> JSON_parse decrypted) =
     Inr (JObj [(ustr ''title'', JStr (ustr ''coozujUa_=%`>oe<7NBo#L ppisode guide'')),
                (ustr ''id'', JNum 5315)])"
proof -
  have "tampered_ciphertext \<noteq> []"
    by (simp add: tampered_ciphertext_def ustr_def)
  then have "decryptB64 default_env tampered_ciphertext (JStr (ustr ''QUJD'')) = Inr tampered_text"
    by (simp only: decryptB64_def derive_QUJD tampered_bytes tampered_plaintext tampered_decoded
        if_False sum.case)
  then have "(case decryptB64 default_env tampered_ciphertext (JStr (ustr ''QUJD'')) of
         Inl err \<Rightarrow> Inl err
       | Inr decrypted \<Rightarrow> JSON_parse decrypted) =
     Inr (JObj [(ustr ''title'', JStr (ustr ''coozujUa_=%`>oe<7NBo#L ppisode guide'')),
                (ustr ''id'', JNum 5315)])"
    by (simp only: tampered_parsed sum.case)
  with one_character one_byte sample_pipeline show ?thesis
    by (intro conjI) blast+
qed

section \<open>The recursion bound of the JSON parser\<close>

lemma length_skip_ws: "length (skip_ws s) \<le> length s"
  by (simp add: skip_ws_def length_dropWhile_le)

lemma skip_ws_Cons_length: "skip_ws s = c # cs \<Longrightarrow> length cs < length s"
  using length_skip_ws [of s] by simp

lemma cons_fst_Some: "cons_fst x r = Some (ys, rest) \<longleftrightarrow> (\<exists>xs. r = Some (xs, rest) \<and> ys = x # xs)"
  by (auto simp add: cons_fst_def split: option.splits)

lemma parse_string_body_length: "parse_string_body s = Some (x, r) \<Longrightarrow> length r < length s"
proof (induct s arbitrary: x r rule: parse_string_body.induct)
  case 1
  then show ?case by simp
next
  case (2 c cs)
  then show ?case
    by (auto simp add: cons_fst_Some split: if_splits list.splits option.splits) force+
qed

lemma parse_number_length: "parse_number s = Some (x, r) \<Longrightarrow> length r < length s"
proof -
  have int_part: "\<And>t ip r. parse_int_part t = Some (ip, r) \<Longrightarrow> length r < length t"
    by (auto simp add: parse_int_part_def less_Suc_eq_le length_dropWhile_le
        split: list.splits if_splits)
  have frac: "\<And>t fp r. parse_frac t = Some (fp, r) \<Longrightarrow> length r \<le> length t"
    by (auto simp add: parse_frac_def le_SucI length_dropWhile_le split: list.splits if_splits)
  have digits: "\<And>sg t ex r. parse_exp_digits sg t = Some (ex, r) \<Longrightarrow> length r \<le> length t"
    by (auto simp add: parse_exp_digits_def length_dropWhile_le split: if_splits)
  have exp: "\<And>t ex r. parse_exp t = Some (ex, r) \<Longrightarrow> length r \<le> length t"
    by (auto simp add: parse_exp_def split: list.splits if_splits dest!: digits)
  have unsigned: "\<And>neg t y r. parse_unsigned neg t = Some (y, r) \<Longrightarrow> length r < length t"
    by (auto simp add: parse_unsigned_def split: option.splits dest!: int_part frac exp)
  assume "parse_number s = Some (x, r)"
  then show ?thesis
    by (auto simp add: parse_number_def split: list.splits if_splits dest!: unsigned)
qed

lemma parse_value_0: "parse_value 0 s = None"
  by (simp add: parse_value.simps)

lemma parse_elements_0: "parse_elements 0 s = None"
  by (simp add: parse_elements.simps)

lemma parse_members_0: "parse_members 0 s = None"
  by (simp add: parse_members.simps)

lemma parse_value_Suc:
  "parse_value (Suc n) s =
     (case skip_ws s of
        [] \<Rightarrow> None
      | c # cs \<Rightarrow>
          if c = 0x7B then
            (case skip_ws cs of
               [] \<Rightarrow> None
             | c' # cs' \<Rightarrow>
                 if c' = 0x7D then Some (JObj [], cs')
                 else (case parse_members n cs of
                         None \<Rightarrow> None
                       | Some (ms, rest) \<Rightarrow> Some (obj_of_members ms, rest)))
          else if c = 0x5B then
            (case skip_ws cs of
               [] \<Rightarrow> None
             | c' # cs' \<Rightarrow>
                 if c' = 0x5D then Some (JArr [], cs')
                 else (case parse_elements n cs of
                         None \<Rightarrow> None
                       | Some (vs, rest) \<Rightarrow> Some (JArr vs, rest)))
          else if c = 0x22 then
            (case parse_string_body cs of
               None \<Rightarrow> None
             | Some (str, rest) \<Rightarrow> Some (JStr str, rest))
          else if is_prefix (ustr ''true'') (c # cs) then Some (JBool True, drop 4 (c # cs))
          else if is_prefix (ustr ''false'') (c # cs) then Some (JBool False, drop 5 (c # cs))
          else if is_prefix (ustr ''null'') (c # cs) then Some (JNull, drop 4 (c # cs))
          else (case parse_number (c # cs) of
                  None \<Rightarrow> None
                | Some (x, rest) \<Rightarrow> Some (JNum x, rest)))"
  by (subst parse_value.simps) (simp cong: list.case_cong option.case_cong if_cong)

lemma parse_elements_Suc:
  "parse_elements (Suc n) s =
     (case parse_value n s of
        None \<Rightarrow> None
      | Some (v, r) \<Rightarrow>
          (case skip_ws r of
             [] \<Rightarrow> None
           | c # cs \<Rightarrow>
               if c = 0x2C then cons_fst v (parse_elements n cs)
               else if c = 0x5D then Some ([v], cs)
               else None))"
  by (subst parse_elements.simps) (simp cong: list.case_cong option.case_cong if_cong)

lemma parse_members_Suc:
  "parse_members (Suc n) s =
     (case skip_ws s of
        [] \<Rightarrow> None
      | q # cs \<Rightarrow>
          if q = 0x22 then
            (case parse_string_body cs of
               None \<Rightarrow> None
             | Some (k, r) \<Rightarrow>
                 (case skip_ws r of
                    [] \<Rightarrow> None
                  | c2 # r2 \<Rightarrow>
                      if c2 = 0x3A then
                        (case parse_value n r2 of
                           None \<Rightarrow> None
                         | Some (v, r3) \<Rightarrow>
                             (case skip_ws r3 of
                                [] \<Rightarrow> None
                              | c3 # r4 \<Rightarrow>
                                  if c3 = 0x2C then cons_fst (k, v) (parse_members n r4)
                                  else if c3 = 0x7D then Some ([(k, v)], r4)
                                  else None))
                      else None))
          else None)"
  by (subst parse_members.simps) (simp cong: list.case_cong option.case_cong if_cong)

lemma parse_value_step:
  assumes E: "\<And>s vs r. parse_elements n s = Some (vs, r) \<Longrightarrow>
      length r < length s \<and> (\<forall>m. 2 * length s + 2 \<le> m \<longrightarrow> parse_elements m s = Some (vs, r))"
    and M: "\<And>s ms r. parse_members n s = Some (ms, r) \<Longrightarrow>
      length r < length s \<and> (\<forall>m. 2 * length s + 2 \<le> m \<longrightarrow> parse_members m s = Some (ms, r))"
    and A: "parse_value (Suc n) s = Some (v, r)"
  shows "length r < length s \<and> (\<forall>m. 2 * length s + 1 \<le> m \<longrightarrow> parse_value m s = Some (v, r))"
proof -
  from A obtain c cs where sk: "skip_ws s = c # cs"
    by (cases "skip_ws s") (simp_all add: parse_value_Suc)
  then have lcs: "length cs < length s"
    by (rule skip_ws_Cons_length)
  have short: "length (c # cs) \<le> length s"
    using length_skip_ws [of s] sk by simp
  have E1: "\<And>t vs r. parse_elements n t = Some (vs, r) \<Longrightarrow> length r < length t"
    using E by blast
  have M1: "\<And>t ms r. parse_members n t = Some (ms, r) \<Longrightarrow> length r < length t"
    using M by blast
  have first: "length r < length s"
    using A lcs short
    by (auto simp add: parse_value_Suc sk split: list.splits if_splits option.splits
        dest!: E1 M1 parse_string_body_length parse_number_length skip_ws_Cons_length)
  have second: "parse_value m s = Some (v, r)" if m: "2 * length s + 1 \<le> m" for m
  proof -
    from m lcs obtain m' where m': "m = Suc m'" "2 * length cs + 2 \<le> m'"
      by (cases m) auto
    have E2: "\<And>vs r. parse_elements n cs = Some (vs, r) \<Longrightarrow> parse_elements m' cs = Some (vs, r)"
      using E m' by blast
    have M2: "\<And>ms r. parse_members n cs = Some (ms, r) \<Longrightarrow> parse_members m' cs = Some (ms, r)"
      using M m' by blast
    from A show ?thesis
      by (auto simp add: parse_value_Suc m' sk E2 M2 split: list.splits if_splits option.splits)
  qed
  from first second show ?thesis by blast
qed

lemma parse_elements_step:
  assumes V: "\<And>s v r. parse_value n s = Some (v, r) \<Longrightarrow>
      length r < length s \<and> (\<forall>m. 2 * length s + 1 \<le> m \<longrightarrow> parse_value m s = Some (v, r))"
    and E: "\<And>s vs r. parse_elements n s = Some (vs, r) \<Longrightarrow>
      length r < length s \<and> (\<forall>m. 2 * length s + 2 \<le> m \<longrightarrow> parse_elements m s = Some (vs, r))"
    and A: "parse_elements (Suc n) s = Some (vs, r)"
  shows "length r < length s \<and> (\<forall>m. 2 * length s + 2 \<le> m \<longrightarrow> parse_elements m s = Some (vs, r))"
proof -
  from A obtain v r1 where v: "parse_value n s = Some (v, r1)"
    by (cases "parse_value n s") (auto simp add: parse_elements_Suc)
  with V have r1: "length r1 < length s" by blast
  from A v obtain c cs where sk: "skip_ws r1 = c # cs"
    by (cases "skip_ws r1") (simp_all add: parse_elements_Suc)
  then have lcs: "length cs < length r1"
    by (rule skip_ws_Cons_length)
  have E1: "\<And>t ws q. parse_elements n t = Some (ws, q) \<Longrightarrow> length q < length t"
    using E by blast
  have first: "length r < length s"
    using A r1 lcs
    by (auto simp add: parse_elements_Suc v sk cons_fst_Some split: if_splits dest!: E1)
  have second: "parse_elements m s = Some (vs, r)" if m: "2 * length s + 2 \<le> m" for m
  proof -
    from m r1 lcs obtain m' where m': "m = Suc m'" "2 * length s + 1 \<le> m'" "2 * length cs + 2 \<le> m'"
      by (cases m) auto
    have V2: "parse_value m' s = Some (v, r1)"
      using V v m' by blast
    have E2: "\<And>ws q. parse_elements n cs = Some (ws, q) \<Longrightarrow> parse_elements m' cs = Some (ws, q)"
      using E m' by blast
    from A show ?thesis
      by (auto simp add: parse_elements_Suc m' v V2 sk cons_fst_Some E2 split: if_splits)
  qed
  from first second show ?thesis by blast
qed

lemma parse_members_step:
  assumes V: "\<And>s v r. parse_value n s = Some (v, r) \<Longrightarrow>
      length r < length s \<and> (\<forall>m. 2 * length s + 1 \<le> m \<longrightarrow> parse_value m s = Some (v, r))"
    and M: "\<And>s ms r. parse_members n s = Some (ms, r) \<Longrightarrow>
      length r < length s \<and> (\<forall>m. 2 * length s + 2 \<le> m \<longrightarrow> parse_members m s = Some (ms, r))"
    and A: "parse_members (Suc n) s = Some (ms, r)"
  shows "length r < length s \<and> (\<forall>m. 2 * length s + 2 \<le> m \<longrightarrow> parse_members m s = Some (ms, r))"
proof -
  from A obtain q cs where sk: "skip_ws s = q # cs" and q: "q = 0x22"
    by (cases "skip_ws s") (auto simp add: parse_members_Suc split: if_splits)
  from sk have lcs: "length cs < length s"
    by (rule skip_ws_Cons_length)
  from A sk q obtain k r1 where k: "parse_string_body cs = Some (k, r1)"
    by (cases "parse_string_body cs") (auto simp add: parse_members_Suc)
  then have r1: "length r1 < length cs"
    by (rule parse_string_body_length)
  from A sk q k obtain c2 r2 where sk2: "skip_ws r1 = c2 # r2" and c2: "c2 = 0x3A"
    by (cases "skip_ws r1") (auto simp add: parse_members_Suc split: if_splits)
  from sk2 have r2: "length r2 < length r1"
    by (rule skip_ws_Cons_length)
  from A sk q k sk2 c2 obtain v r3 where v: "parse_value n r2 = Some (v, r3)"
    by (cases "parse_value n r2") (auto simp add: parse_members_Suc)
  with V have r3: "length r3 < length r2" by blast
  from A sk q k sk2 c2 v obtain c3 r4 where sk3: "skip_ws r3 = c3 # r4"
    by (cases "skip_ws r3") (auto simp add: parse_members_Suc)
  then have r4: "length r4 < length r3"
    by (rule skip_ws_Cons_length)
  have M1: "\<And>t ws p. parse_members n t = Some (ws, p) \<Longrightarrow> length p < length t"
    using M by blast
  have first: "length r < length s"
    using A lcs r1 r2 r3 r4
    by (auto simp add: parse_members_Suc sk q k sk2 c2 v sk3 cons_fst_Some split: if_splits
        dest!: M1)
  have second: "parse_members m s = Some (ms, r)" if m: "2 * length s + 2 \<le> m" for m
  proof -
    from m lcs r1 r2 r3 r4 obtain m'
      where m': "m = Suc m'" "2 * length r2 + 1 \<le> m'" "2 * length r4 + 2 \<le> m'"
      by (cases m) auto
    have V2: "parse_value m' r2 = Some (v, r3)"
      using V v m' by blast
    have M2: "\<And>ws p. parse_members n r4 = Some (ws, p) \<Longrightarrow> parse_members m' r4 = Some (ws, p)"
      using M m' by blast
    from A show ?thesis
      by (auto simp add: parse_members_Suc m' sk q k sk2 c2 v V2 sk3 cons_fst_Some M2
          split: if_splits)
  qed
  from first second show ?thesis by blast
qed

lemma parse_fuel:
  "(\<forall>s v r. parse_value n s = Some (v, r) \<longrightarrow>
      length r < length s \<and> (\<forall>m. 2 * length s + 1 \<le> m \<longrightarrow> parse_value m s = Some (v, r)))
   \<and> (\<forall>s vs r. parse_elements n s = Some (vs, r) \<longrightarrow>
      length r < length s \<and> (\<forall>m. 2 * length s + 2 \<le> m \<longrightarrow> parse_elements m s = Some (vs, r)))
   \<and> (\<forall>s ms r. parse_members n s = Some (ms, r) \<longrightarrow>
      length r < length s \<and> (\<forall>m. 2 * length s + 2 \<le> m \<longrightarrow> parse_members m s = Some (ms, r)))"
proof (induct n)
  case 0
  show ?case
    by (simp add: parse_value_0 parse_elements_0 parse_members_0)
next
  case (Suc n)
  then have V: "\<And>s v r. parse_value n s = Some (v, r) \<Longrightarrow>
      length r < length s \<and> (\<forall>m. 2 * length s + 1 \<le> m \<longrightarrow> parse_value m s = Some (v, r))"
    and E: "\<And>s vs r. parse_elements n s = Some (vs, r) \<Longrightarrow>
      length r < length s \<and> (\<forall>m. 2 * length s + 2 \<le> m \<longrightarrow> parse_elements m s = Some (vs, r))"
    and M: "\<And>s ms r. parse_members n s = Some (ms, r) \<Longrightarrow>
      length r < length s \<and> (\<forall>m. 2 * length s + 2 \<le> m \<longrightarrow> parse_members m s = Some (ms, r))"
    by blast+
  from parse_value_step [OF E M] parse_elements_step [OF V E] parse_members_step [OF V M]
  show ?case by blast
qed

text \<open>The bound that \<open>JSON_parse\<close> gives the parser is never the reason for a failure:
  every larger bound gives the same result.\<close>

lemma JSON_parse_bound:
  assumes "2 * length t + 2 \<le> n"
  shows "parse_value n t = parse_value (2 * length t + 2) t"
proof -
  have up: "parse_value n t = Some (v, r)" if "parse_value (2 * length t + 2) t = Some (v, r)" for v r
  proof -
    from that parse_fuel [of "2 * length t + 2"]
    have "\<forall>m. 2 * length t + 1 \<le> m \<longrightarrow> parse_value m t = Some (v, r)"
      by blast
    moreover from assms have "2 * length t + 1 \<le> n"
      by simp
    ultimately show ?thesis by blast
  qed
  have down: "parse_value (2 * length t + 2) t = Some (v, r)" if "parse_value n t = Some (v, r)" for v r
  proof -
    from that parse_fuel [of n]
    have "\<forall>m. 2 * length t + 1 \<le> m \<longrightarrow> parse_value m t = Some (v, r)"
      by blast
    then show ?thesis by simp
  qed
  show ?thesis
  proof (cases "parse_value n t")
    case None
    with up show ?thesis
      by (cases "parse_value (2 * length t + 2) t") auto
  next
    case (Some p)
    with down show ?thesis
      by (cases p) auto
  qed
qed

section \<open>UTF-8: decoding what was encoded\<close>

text \<open>
  \<open>utf8_decode\<close> gives back every well-formed string from the bytes \<open>utf8_encode\<close> made
  of it. A code point is split into its groups of six bits, so that the conditions of
  \<open>utf8_step\<close> become linear arithmetic.
\<close>

lemma unat_of_nat_byte: "n < 256 \<Longrightarrow> unat (of_nat n :: byte) = n"
  by (simp add: unat_of_nat)

lemma ucast_of_nat_byte: "n < 256 \<Longrightarrow> (ucast (of_nat n :: byte) :: jschar) = of_nat n"
  by (simp add: unsigned_of_nat take_bit_nat_eq_self)

lemma split2:
  fixes cp :: nat
  obtains a c where "cp = a * 64 + c" "c < 64" "cp div 64 = a" "cp mod 64 = c"
  by (rule that [of "cp div 64" "cp mod 64"]) simp_all

lemma split3:
  fixes cp :: nat
  obtains a b c where "cp = a * 4096 + b * 64 + c" "b < 64" "c < 64"
    "cp div 4096 = a" "cp div 64 mod 64 = b" "cp mod 64 = c"
proof (rule that [of "cp div 4096" "cp div 64 mod 64" "cp mod 64"])
  have "cp div 4096 = cp div 64 div 64"
    by (simp add: div_mult2_eq [symmetric])
  then have "cp div 4096 * 64 + cp div 64 mod 64 = cp div 64"
    by simp
  then have "(cp div 4096 * 64 + cp div 64 mod 64) * 64 + cp mod 64 = cp"
    by simp
  then show "cp = cp div 4096 * 4096 + cp div 64 mod 64 * 64 + cp mod 64"
    by (simp add: algebra_simps)
qed simp_all

lemma split4:
  fixes cp :: nat
  obtains a b c d where "cp = a * 262144 + b * 4096 + c * 64 + d" "b < 64" "c < 64" "d < 64"
    "cp div 262144 = a" "cp div 4096 mod 64 = b" "cp div 64 mod 64 = c" "cp mod 64 = d"
proof (rule that [of "cp div 262144" "cp div 4096 mod 64" "cp div 64 mod 64" "cp mod 64"])
  have "cp div 262144 = cp div 4096 div 64"
    by (simp add: div_mult2_eq [symmetric])
  then have "cp div 262144 * 64 + cp div 4096 mod 64 = cp div 4096"
    by simp
  moreover have "cp div 4096 = cp div 64 div 64"
    by (simp add: div_mult2_eq [symmetric])
  then have "cp div 4096 * 64 + cp div 64 mod 64 = cp div 64"
    by simp
  ultimately have "(cp div 262144 * 64 + cp div 4096 mod 64) * 64 + cp div 64 mod 64 = cp div 64"
    by simp
  then have "((cp div 262144 * 64 + cp div 4096 mod 64) * 64 + cp div 64 mod 64) * 64 + cp mod 64 = cp"
    by simp
  then show "cp = cp div 262144 * 262144 + cp div 4096 mod 64 * 4096 + cp div 64 mod 64 * 64 + cp mod 64"
    by (simp add: algebra_simps)
qed simp_all

lemma utf8_decode_one:
  assumes "cp < 0x80"
  shows "utf8_decode (utf8_bytes cp @ bs) = utf16_units cp @ utf8_decode bs"
proof -
  have b: "unat (of_nat cp :: byte) = cp"
    using assms by (simp add: unat_of_nat_byte)
  have "(of_nat cp :: byte) < 0x80"
    using assms by (simp add: word_less_nat_alt b)
  with assms show ?thesis
    by (simp add: utf8_bytes_def utf8_step_def utf16_units_def ucast_of_nat_byte)
qed

lemma utf8_decode_two:
  assumes "0x80 \<le> cp" "cp < 0x800"
  shows "utf8_decode (utf8_bytes cp @ bs) = utf16_units cp @ utf8_decode bs"
proof -
  obtain a c where s: "cp = a * 64 + c" "c < 64" and d: "cp div 64 = a" "cp mod 64 = c"
    by (rule split2)
  define b0 :: byte where "b0 = of_nat (0xC0 + a)"
  define b1 :: byte where "b1 = of_nat (0x80 + c)"
  have u0: "unat b0 = 0xC0 + a"
    unfolding b0_def using assms s by (intro unat_of_nat_byte) linarith
  have u1: "unat b1 = 0x80 + c"
    unfolding b1_def using s by (intro unat_of_nat_byte) linarith
  have lead: "\<not> b0 < 0x80" "0xC2 \<le> b0" "b0 \<le> 0xDF"
    using assms s by (simp_all add: word_less_nat_alt word_le_nat_alt u0)
  have cont: "is_cont b1"
    using s by (simp add: is_cont_def word_le_nat_alt u1)
  have val: "(unat b0 - 0xC0) * 64 + cont_bits b1 = cp"
    using s by (simp add: u0 u1 cont_bits_def)
  have "utf8_bytes cp = [b0, b1]"
    using assms by (simp add: utf8_bytes_def b0_def b1_def d)
  then show ?thesis
    by (simp add: utf8_step_def lead cont val)
qed

lemma utf8_decode_three:
  assumes "0x800 \<le> cp" "cp < 0x10000" "\<not> (0xD800 \<le> cp \<and> cp \<le> 0xDFFF)"
  shows "utf8_decode (utf8_bytes cp @ bs) = utf16_units cp @ utf8_decode bs"
proof -
  obtain a b c where s: "cp = a * 4096 + b * 64 + c" "b < 64" "c < 64"
    and d: "cp div 4096 = a" "cp div 64 mod 64 = b" "cp mod 64 = c"
    by (rule split3)
  define b0 :: byte where "b0 = of_nat (0xE0 + a)"
  define b1 :: byte where "b1 = of_nat (0x80 + b)"
  define b2 :: byte where "b2 = of_nat (0x80 + c)"
  have a: "a < 16"
    using assms s by linarith
  have u0: "unat b0 = 0xE0 + a"
    unfolding b0_def using a by (intro unat_of_nat_byte) linarith
  have u1: "unat b1 = 0x80 + b"
    unfolding b1_def using s by (intro unat_of_nat_byte) linarith
  have u2: "unat b2 = 0x80 + c"
    unfolding b2_def using s by (intro unat_of_nat_byte) linarith
  have lead: "\<not> b0 < 0x80" "\<not> (0xC2 \<le> b0 \<and> b0 \<le> 0xDF)" "0xE0 \<le> b0" "b0 \<le> 0xEF"
    using a by (simp_all add: word_less_nat_alt word_le_nat_alt u0)
  have e0: "b0 = 0xE0 \<longleftrightarrow> a = 0" and ed: "b0 = 0xED \<longleftrightarrow> a = 13"
    by (simp_all add: word_unat_eq_iff u0)
  have "a = 0 \<longrightarrow> 32 \<le> b" "a = 13 \<longrightarrow> b \<le> 31"
    using assms s by linarith+
  then have second: "(if b0 = 0xE0 then 0xA0 else 0x80) \<le> b1"
      "b1 \<le> (if b0 = 0xED then 0x9F else 0xBF)"
    using s by (simp_all add: e0 ed word_le_nat_alt u1)
  have cont: "is_cont b2"
    using s by (simp add: is_cont_def word_le_nat_alt u2)
  have val: "(unat b0 - 0xE0) * 4096 + cont_bits b1 * 64 + cont_bits b2 = cp"
    using s by (simp add: u0 u1 u2 cont_bits_def)
  have "utf8_bytes cp = [b0, b1, b2]"
    using assms by (simp add: utf8_bytes_def b0_def b1_def b2_def d)
  then show ?thesis
    using second by (simp add: utf8_step_def lead cont val)
qed

lemma utf8_decode_four:
  assumes "0x10000 \<le> cp" "cp < 0x110000"
  shows "utf8_decode (utf8_bytes cp @ bs) = utf16_units cp @ utf8_decode bs"
proof -
  obtain a b c d where s: "cp = a * 262144 + b * 4096 + c * 64 + d" "b < 64" "c < 64" "d < 64"
    and dv: "cp div 262144 = a" "cp div 4096 mod 64 = b" "cp div 64 mod 64 = c" "cp mod 64 = d"
    by (rule split4)
  define b0 :: byte where "b0 = of_nat (0xF0 + a)"
  define b1 :: byte where "b1 = of_nat (0x80 + b)"
  define b2 :: byte where "b2 = of_nat (0x80 + c)"
  define b3 :: byte where "b3 = of_nat (0x80 + d)"
  have a: "a < 5"
    using assms s by linarith
  have u0: "unat b0 = 0xF0 + a"
    unfolding b0_def using a by (intro unat_of_nat_byte) linarith
  have u1: "unat b1 = 0x80 + b"
    unfolding b1_def using s by (intro unat_of_nat_byte) linarith
  have u2: "unat b2 = 0x80 + c"
    unfolding b2_def using s by (intro unat_of_nat_byte) linarith
  have u3: "unat b3 = 0x80 + d"
    unfolding b3_def using s by (intro unat_of_nat_byte) linarith
  have lead: "\<not> b0 < 0x80" "\<not> (0xC2 \<le> b0 \<and> b0 \<le> 0xDF)" "\<not> (0xE0 \<le> b0 \<and> b0 \<le> 0xEF)"
      "0xF0 \<le> b0" "b0 \<le> 0xF4"
    using a by (simp_all add: word_less_nat_alt word_le_nat_alt u0)
  have e0: "b0 = 0xF0 \<longleftrightarrow> a = 0" and e4: "b0 = 0xF4 \<longleftrightarrow> a = 4"
    by (simp_all add: word_unat_eq_iff u0)
  have "a = 0 \<longrightarrow> 16 \<le> b" "a = 4 \<longrightarrow> b \<le> 15"
    using assms s by linarith+
  then have second: "(if b0 = 0xF0 then 0x90 else 0x80) \<le> b1"
      "b1 \<le> (if b0 = 0xF4 then 0x8F else 0xBF)"
    using s by (simp_all add: e0 e4 word_le_nat_alt u1)
  have cont: "is_cont b2" "is_cont b3"
    using s by (simp_all add: is_cont_def word_le_nat_alt u2 u3)
  have val: "(unat b0 - 0xF0) * 262144 + cont_bits b1 * 4096 + cont_bits b2 * 64 + cont_bits b3 = cp"
    using s by (simp add: u0 u1 u2 u3 cont_bits_def)
  have "utf8_bytes cp = [b0, b1, b2, b3]"
    using assms by (simp add: utf8_bytes_def b0_def b1_def b2_def b3_def dv)
  then show ?thesis
    using second by (simp add: utf8_step_def lead cont val)
qed

lemma utf8_decode_utf8_bytes:
  assumes "cp < 0x110000" "\<not> (0xD800 \<le> cp \<and> cp \<le> 0xDFFF)"
  shows "utf8_decode (utf8_bytes cp @ bs) = utf16_units cp @ utf8_decode bs"
proof -
  consider "cp < 0x80" | "0x80 \<le> cp" "cp < 0x800" | "0x800 \<le> cp" "cp < 0x10000"
    | "0x10000 \<le> cp"
    by linarith
  then show ?thesis
  proof cases
    case 1
    then show ?thesis by (rule utf8_decode_one)
  next
    case 2
    then show ?thesis by (rule utf8_decode_two)
  next
    case 3
    then show ?thesis using assms(2) by (rule utf8_decode_three)
  next
    case 4
    then show ?thesis using assms(1) by (rule utf8_decode_four)
  qed
qed

lemma utf8_decode_unit:
  assumes "\<not> is_high c" "\<not> is_low c"
  shows "utf8_decode (utf8_bytes (unat c) @ bs) = c # utf8_decode bs"
proof -
  have "unat c < 0x10000"
    using unsigned_less [of c] by simp
  moreover from assms have "\<not> (0xD800 \<le> unat c \<and> unat c \<le> 0xDFFF)"
    by (auto simp add: is_high_def is_low_def word_le_nat_alt)
  ultimately have "utf8_decode (utf8_bytes (unat c) @ bs) = utf16_units (unat c) @ utf8_decode bs"
    by (intro utf8_decode_utf8_bytes) simp_all
  with \<open>unat c < 0x10000\<close> show ?thesis
    by (simp add: utf16_units_def)
qed

lemma utf8_decode_pair:
  assumes "is_high c" "is_low d"
  shows "utf8_decode (utf8_bytes (0x10000 + (unat c - 0xD800) * 0x400 + (unat d - 0xDC00)) @ bs) =
    c # d # utf8_decode bs"
proof -
  define h where "h = unat c - 0xD800"
  define l where "l = unat d - 0xDC00"
  have c: "unat c = 0xD800 + h" and h: "h < 0x400"
    using assms(1) by (auto simp add: is_high_def word_le_nat_alt h_def)
  have d: "unat d = 0xDC00 + l" and l: "l < 0x400"
    using assms(2) by (auto simp add: is_low_def word_le_nat_alt l_def)
  define cp where "cp = 0x10000 + h * 0x400 + l"
  have range: "0x10000 \<le> cp" "cp < 0x110000"
    using h l by (simp_all add: cp_def)
  then have "utf8_decode (utf8_bytes cp @ bs) = utf16_units cp @ utf8_decode bs"
    by (rule utf8_decode_four)
  moreover have "(cp - 0x10000) div 0x400 = h" "(cp - 0x10000) mod 0x400 = l"
    using l by (simp_all add: cp_def)
  moreover have "(of_nat (0xD800 + h) :: jschar) = c" "(of_nat (0xDC00 + l) :: jschar) = d"
    using c [symmetric] d [symmetric] by simp_all
  ultimately have "utf8_decode (utf8_bytes cp @ bs) = c # d # utf8_decode bs"
    using range by (simp add: utf16_units_def)
  then show ?thesis
    by (simp add: cp_def h_def l_def)
qed

lemma utf8_decode_utf8_encode: "well_formed s \<Longrightarrow> utf8_decode (utf8_encode s) = s"
proof (induct s rule: well_formed.induct)
  case 1
  then show ?case by simp
next
  case (2 c)
  then show ?case
    using utf8_decode_unit [of c "[]"] by simp
next
  case (3 c d cs)
  show ?case
  proof (cases "is_high c")
    case True
    with 3 show ?thesis
      by (simp add: utf8_decode_pair)
  next
    case False
    with 3 show ?thesis
      by (simp add: utf8_decode_unit)
  qed
qed

section \<open>JSON: parsing what was serialised\<close>

text \<open>
  \<open>JSON.parse\<close> reads the text of \<open>serialise v\<close> back as \<open>v\<close>, for every JSON value \<open>v\<close>, and
  the text is well-formed UTF-16. The lemmas follow the grammar: characters and
  strings, digits and numbers, then arrays and objects by induction on the value.
\<close>

subsection \<open>Characters\<close>

lemma well_formed_Cons_plain: "plain c \<Longrightarrow> well_formed (c # s) = well_formed s"
  by (cases s) (simp_all add: plain_def)

lemma well_formed_append: "well_formed a \<Longrightarrow> well_formed b \<Longrightarrow> well_formed (a @ b)"
proof (induct a rule: well_formed.induct)
  case 1
  then show ?case by simp
next
  case (2 c)
  then show ?case by (simp add: well_formed_Cons_plain plain_def)
next
  case (3 c d cs)
  then show ?case by (simp split: if_splits)
qed

lemma plain_ascii: "c < 0x80 \<Longrightarrow> plain c"
  by (simp add: plain_def is_high_def is_low_def word_le_nat_alt word_less_nat_alt)

lemma hex_digit_table:
  "all_below (\<lambda>d. hex_val (hex_digit d) = Some d \<and> hex_digit d < 0x80) 16"
  by code_simp

lemma hex_val_hex_digit: "d < 16 \<Longrightarrow> hex_val (hex_digit d) = Some d"
  using all_belowD [OF hex_digit_table] by blast

lemma plain_hex_digit: "d < 16 \<Longrightarrow> plain (hex_digit d)"
  using all_belowD [OF hex_digit_table] by (blast intro: plain_ascii)

lemma hex4_value:
  "unat c div 4096 * 4096 + unat c div 256 mod 16 * 256 + unat c div 16 mod 16 * 16
     + unat c mod 16 = unat c"
proof -
  have "unat c div 4096 = unat c div 256 div 16" "unat c div 256 = unat c div 16 div 16"
    by (simp_all add: div_mult2_eq [symmetric])
  then have "unat c div 4096 * 16 + unat c div 256 mod 16 = unat c div 256"
      "unat c div 256 * 16 + unat c div 16 mod 16 = unat c div 16"
    by simp_all
  then have "((unat c div 4096 * 16 + unat c div 256 mod 16) * 16 + unat c div 16 mod 16) * 16
      + unat c mod 16 = unat c"
    by simp
  then show ?thesis
    by (simp add: algebra_simps)
qed

lemma hex4_digits:
  "unat (c :: jschar) div 4096 < 16" "unat c div 256 mod 16 < 16" "unat c div 16 mod 16 < 16"
  "unat c mod 16 < 16"
proof -
  have "unat c < 16 * 4096"
    using unsigned_less [of c] by simp
  then show "unat c div 4096 < 16"
    by (rule less_mult_imp_div_less)
qed simp_all

lemma well_formed_hex4: "well_formed (hex4 c @ s) = well_formed s"
  by (simp add: hex4_def well_formed_Cons_plain plain_hex_digit hex4_digits del: well_formed.simps)

lemma parse_string_body_raw:
  "c \<noteq> 0x22 \<Longrightarrow> c \<noteq> 0x5C \<Longrightarrow> \<not> c < 0x20 \<Longrightarrow>
   parse_string_body (c # t) = cons_fst c (parse_string_body t)"
  by simp

lemma parse_string_body_hex4:
  "parse_string_body (0x5C # 0x75 # hex4 c @ t) = cons_fst c (parse_string_body t)"
proof -
  have "(of_nat (unat c div 4096 * 4096 + unat c div 256 mod 16 * 256 + unat c div 16 mod 16 * 16
     + unat c mod 16) :: jschar) = c"
    by (simp only: hex4_value of_nat_unat ucast_id)
  then show ?thesis
    by (simp add: hex4_def hex_val_hex_digit hex4_digits)
qed

lemma parse_string_body_escape_unit:
  "parse_string_body (escape_unit c @ t) = cons_fst c (parse_string_body t)"
proof -
  consider "c = 0x22" | "c = 0x5C" | "c = 0x08" | "c = 0x09" | "c = 0x0A" | "c = 0x0C" | "c = 0x0D"
    | "c \<noteq> 0x22" "c \<noteq> 0x5C" "c \<noteq> 0x08" "c \<noteq> 0x09" "c \<noteq> 0x0A" "c \<noteq> 0x0C" "c \<noteq> 0x0D"
    by blast
  then show ?thesis
  proof cases
    case 8
    show ?thesis
    proof (cases "c < 0x20 \<or> is_high c \<or> is_low c")
      case True
      with 8 have "escape_unit c = 0x5C # 0x75 # hex4 c"
        by (simp add: escape_unit_def)
      then show ?thesis
        by (simp only: append_Cons parse_string_body_hex4)
    next
      case False
      with 8 have "escape_unit c = [c]"
        by (simp add: escape_unit_def)
      with 8 False show ?thesis
        by (simp add: parse_string_body_raw)
    qed
  qed (simp_all add: escape_unit_def unescape_def)
qed

lemma is_high_raw: "is_high c \<Longrightarrow> c \<noteq> 0x22 \<and> c \<noteq> 0x5C \<and> \<not> c < 0x20"
  by (auto simp add: is_high_def word_le_nat_alt word_less_nat_alt)

lemma is_low_raw: "is_low c \<Longrightarrow> c \<noteq> 0x22 \<and> c \<noteq> 0x5C \<and> \<not> c < 0x20"
  by (auto simp add: is_low_def word_le_nat_alt word_less_nat_alt)

lemma parse_string_body_quote_body:
  "parse_string_body (quote_body s @ 0x22 # rest) = Some (s, rest)"
proof (induct s rule: quote_body.induct)
  case 1
  then show ?case by simp
next
  case (2 c)
  have "parse_string_body (escape_unit c @ 0x22 # rest) =
      cons_fst c (parse_string_body (0x22 # rest))"
    by (rule parse_string_body_escape_unit)
  then show ?case
    by (simp add: cons_fst_def)
next
  case (3 c d cs)
  show ?case
  proof (cases "is_high c \<and> is_low d")
    case True
    then have q: "quote_body (c # d # cs) = c # d # quote_body cs"
      by simp
    from True have "parse_string_body (c # d # quote_body cs @ 0x22 # rest) =
        cons_fst c (cons_fst d (parse_string_body (quote_body cs @ 0x22 # rest)))"
      using is_high_raw [of c] is_low_raw [of d] by (simp add: parse_string_body_raw
          del: parse_string_body.simps)
    also have "\<dots> = Some (c # d # cs, rest)"
      using 3(1) [OF True] by (simp only: cons_fst_def option.case prod.case)
    finally show ?thesis
      by (simp only: q append_Cons)
  next
    case False
    then have q: "quote_body (c # d # cs) = escape_unit c @ quote_body (d # cs)"
      by auto
    have "parse_string_body (escape_unit c @ quote_body (d # cs) @ 0x22 # rest) =
        cons_fst c (parse_string_body (quote_body (d # cs) @ 0x22 # rest))"
      by (rule parse_string_body_escape_unit)
    also have "\<dots> = Some (c # d # cs, rest)"
      using 3(2) [OF False] by (simp only: cons_fst_def option.case prod.case)
    finally show ?thesis
      by (simp only: q append_assoc)
  qed
qed

lemma well_formed_escape_unit: "well_formed (escape_unit c @ s) = well_formed s"
proof -
  have ascii: "well_formed (0x5C # x # s) = well_formed s" if "x < 0x80" for x s
    using that by (simp add: well_formed_Cons_plain plain_ascii del: well_formed.simps)
  consider "c = 0x22" | "c = 0x5C" | "c = 0x08" | "c = 0x09" | "c = 0x0A" | "c = 0x0C" | "c = 0x0D"
    | "c \<noteq> 0x22" "c \<noteq> 0x5C" "c \<noteq> 0x08" "c \<noteq> 0x09" "c \<noteq> 0x0A" "c \<noteq> 0x0C" "c \<noteq> 0x0D"
    by blast
  then show ?thesis
  proof cases
    case 8
    show ?thesis
    proof (cases "c < 0x20 \<or> is_high c \<or> is_low c")
      case True
      with 8 have "escape_unit c = 0x5C # 0x75 # hex4 c"
        by (simp add: escape_unit_def)
      then show ?thesis
        by (simp add: ascii well_formed_hex4 del: well_formed.simps)
    next
      case False
      with 8 have "escape_unit c = [c]"
        by (simp add: escape_unit_def)
      with False show ?thesis
        by (simp add: well_formed_Cons_plain plain_def del: well_formed.simps)
    qed
  qed (simp_all add: escape_unit_def ascii del: well_formed.simps)
qed

lemma well_formed_quote_body: "well_formed (quote_body s @ t) = well_formed t"
proof (induct s rule: quote_body.induct)
  case 1
  then show ?case by simp
next
  case (2 c)
  then show ?case by (simp add: well_formed_escape_unit)
next
  case (3 c d cs)
  then show ?case
    by (auto simp add: well_formed_escape_unit)
qed

lemma well_formed_quote: "well_formed (quote s @ t) = well_formed t"
  by (simp add: quote_def well_formed_Cons_plain plain_ascii well_formed_quote_body
      del: well_formed.simps)

subsection \<open>Digits\<close>

lemma digit_table:
  "all_below (\<lambda>d. is_digit (of_nat (0x30 + d)) \<and> unat (of_nat (0x30 + d) :: jschar) - 0x30 = d
     \<and> ((of_nat (0x30 + d) :: jschar) = 0x30 \<longleftrightarrow> d = 0)) 10"
  by code_simp

lemma digit_char:
  assumes "d < 10"
  shows "is_digit (of_nat (0x30 + d))" "unat (of_nat (0x30 + d) :: jschar) - 0x30 = d"
    "(of_nat (0x30 + d) :: jschar) = 0x30 \<longleftrightarrow> d = 0"
  using all_belowD [OF digit_table assms] by blast+

lemma digits_val_snoc: "digits_val (ds @ [c]) = digits_val ds * 10 + (unat c - 0x30)"
  by (simp add: digits_val_def)

lemma digits_of_small: "n < 10 \<Longrightarrow> digits_of n = [of_nat (0x30 + n)]"
  by (subst digits_of.simps) simp

lemma digits_of_large:
  "\<not> n < 10 \<Longrightarrow> digits_of n = digits_of (n div 10) @ [of_nat (0x30 + n mod 10)]"
  by (subst digits_of.simps) simp

lemma digits_of_props:
  "list_all is_digit (digits_of n) \<and> digits_of n \<noteq> [] \<and> digits_val (digits_of n) = n
   \<and> (hd (digits_of n) = 0x30 \<longleftrightarrow> n = 0)"
proof (induct n rule: digits_of.induct)
  case (1 n)
  show ?case
  proof (cases "n < 10")
    case True
    then show ?thesis
      by (simp only: digits_of_small [OF True]) (simp add: digit_char digits_val_def del: of_nat_add)
  next
    case False
    have last: "n mod 10 < 10"
      by simp
    from False have "n div 10 \<noteq> 0"
      by simp
    with 1 [OF False] show ?thesis
      by (simp only: digits_of_large [OF False])
        (simp add: digits_val_snoc digit_char [OF last] del: of_nat_add)
  qed
qed

lemma is_digit_ascii: "is_digit c \<Longrightarrow> c < 0x80"
  by (simp add: is_digit_def word_le_nat_alt word_less_nat_alt)

lemma well_formed_plain_prefix:
  "list_all plain ds \<Longrightarrow> well_formed (ds @ s) = well_formed s"
  by (induct ds) (simp_all add: well_formed_Cons_plain del: well_formed.simps)

lemma well_formed_digits_of: "well_formed (digits_of n @ s) = well_formed s"
proof -
  have "list_all plain (digits_of n)"
    using digits_of_props [of n] by (auto simp add: list_all_iff intro: plain_ascii is_digit_ascii)
  then show ?thesis
    by (rule well_formed_plain_prefix)
qed

lemma stops_not_digit: "stops t \<Longrightarrow> takeWhile is_digit t = [] \<and> dropWhile is_digit t = t"
  by (cases t) (auto simp add: stops_def is_digit_def)

lemma digits_then:
  assumes "takeWhile is_digit t = []"
  shows "takeWhile is_digit (digits_of n @ t) = digits_of n"
    and "dropWhile is_digit (digits_of n @ t) = t"
proof -
  have all: "\<And>x. x \<in> set (digits_of n) \<Longrightarrow> is_digit x"
    using digits_of_props [of n] by (simp add: list_all_iff)
  from assms have "dropWhile is_digit t = t"
    by (cases t) (auto split: if_splits)
  with assms all show "takeWhile is_digit (digits_of n @ t) = digits_of n"
    and "dropWhile is_digit (digits_of n @ t) = t"
    by (simp_all add: takeWhile_append2 dropWhile_append2)
qed

lemma parse_int_part_digits_of:
  assumes "takeWhile is_digit t = []"
  shows "parse_int_part (digits_of n @ t) = Some (digits_of n, t)"
proof (cases "n = 0")
  case True
  then show ?thesis
    by (simp add: digits_of_small parse_int_part_def)
next
  case False
  obtain d ds where split: "digits_of n = d # ds"
    using digits_of_props [of n] by (cases "digits_of n") auto
  with False have d: "d \<noteq> 0x30" "is_digit d"
    using digits_of_props [of n] by auto
  from digits_then [OF assms, of n] d(2)
  have "takeWhile is_digit (ds @ t) = ds" "dropWhile is_digit (ds @ t) = t"
    by (simp_all add: split)
  with d show ?thesis
    by (simp add: split parse_int_part_def)
qed

subsection \<open>Numbers\<close>

lemma decimal_exponent_Some:
  "decimal_exponent n q e0 = Some e \<Longrightarrow> of_int \<lfloor>q * 10 ^ e\<rfloor> = q * 10 ^ e"
  by (induct n arbitrary: e0) (auto split: if_splits)

lemma parse_exp_text:
  assumes "stops t"
  shows "parse_exp ((if e = 0 then [] else [0x65, 0x2D] @ digits_of e) @ t) = Some (- int e, t)"
proof (cases "e = 0")
  case True
  with assms show ?thesis
    by (cases t) (auto simp add: parse_exp_def stops_def)
next
  case False
  have none: "takeWhile is_digit t = []"
    using assms by (simp add: stops_not_digit)
  have "parse_exp_digits (- 1) (digits_of e @ t) = Some (- int e, t)"
    using digits_of_props [of e]
    by (simp add: parse_exp_digits_def digits_then [OF none])
  with False show ?thesis
    by (simp add: parse_exp_def)
qed

lemma parse_unsigned_text:
  assumes "stops t"
  shows "parse_unsigned neg (digits_of m @ (if e = 0 then [] else [0x65, 0x2D] @ digits_of e) @ t) =
    Some ((if neg then - 1 else 1) * of_nat m / 10 ^ e, t)"
proof -
  define x where "x = (if e = 0 then [] else [0x65, 0x2D] @ digits_of e) @ t"
  have none: "takeWhile is_digit x = []"
    using assms by (cases t) (auto simp add: x_def stops_def is_digit_def)
  have frac: "parse_frac x = Some ([], x)"
    using assms by (cases t) (auto simp add: x_def parse_frac_def stops_def)
  have exp: "parse_exp x = Some (- int e, t)"
    unfolding x_def using assms by (rule parse_exp_text)
  have "number_value neg (digits_of m) [] (- int e) = (if neg then - 1 else 1) * of_nat m / 10 ^ e"
    using digits_of_props [of m] by (simp add: number_value_def)
  then show ?thesis
    unfolding x_def [symmetric]
    by (simp add: parse_unsigned_def parse_int_part_digits_of [OF none] frac exp)
qed

lemma number_text_first:
  "exponent_of q = Some e \<Longrightarrow>
   \<exists>c cs. number_text q = c # cs \<and> (c = 0x2D \<or> is_digit c)"
  using digits_of_props [of "nat \<bar>\<lfloor>q * 10 ^ e\<rfloor>\<bar>"]
  by (cases "digits_of (nat \<bar>\<lfloor>q * 10 ^ e\<rfloor>\<bar>)") (auto simp add: number_text_def)

lemma parse_number_number_text:
  assumes e: "exponent_of q = Some e" and t: "stops t"
  shows "parse_number (number_text q @ t) = Some (q, t)"
proof -
  define m where "m = nat \<bar>\<lfloor>q * 10 ^ e\<rfloor>\<bar>"
  have whole: "of_int \<lfloor>q * 10 ^ e\<rfloor> = q * 10 ^ e"
    using e unfolding exponent_of_def by (rule decimal_exponent_Some)
  have "(of_nat m :: rat) = \<bar>of_int \<lfloor>q * 10 ^ e\<rfloor>\<bar>"
    by (simp add: m_def)
  then have m: "(of_nat m :: rat) = \<bar>q\<bar> * 10 ^ e"
    by (simp add: whole abs_mult)
  have shape: "number_text q =
      (if q < 0 then [0x2D] else []) @ digits_of m @ (if e = 0 then [] else [0x65, 0x2D] @ digits_of e)"
    by (simp add: number_text_def e m_def)
  show ?thesis
  proof (cases "q < 0")
    case True
    then have "- 1 * of_nat m / 10 ^ e = q"
      by (simp add: m)
    with True parse_unsigned_text [OF t, of True m e] show ?thesis
      by (simp add: shape parse_number_def)
  next
    case False
    then have same: "1 * of_nat m / 10 ^ e = q"
      by (simp add: m)
    obtain d ds where split: "digits_of m = d # ds"
      using digits_of_props [of m] by (cases "digits_of m") auto
    then have "is_digit d"
      using digits_of_props [of m] by simp
    then have "d \<noteq> 0x2D"
      by (auto simp add: is_digit_def)
    with False same parse_unsigned_text [OF t, of False m e] show ?thesis
      by (simp add: shape parse_number_def split)
  qed
qed

lemma well_formed_number_text: "well_formed (number_text q @ s) = well_formed s"
proof (cases "exponent_of q")
  case None
  then show ?thesis
    by (simp add: number_text_def ustr_def well_formed_Cons_plain plain_ascii
        del: well_formed.simps)
next
  case (Some e)
  then show ?thesis
    by (simp add: number_text_def well_formed_digits_of well_formed_Cons_plain plain_ascii
        del: well_formed.simps)
qed

subsection \<open>Numbers with a finite decimal expansion\<close>

text \<open>
  \<open>exponent_of\<close> finds an exponent for every rational that has a finite decimal
  expansion: when \<open>q * 10 ^ E\<close> is an integer for some \<open>E\<close>, the denominator \<open>d\<close> of \<open>q\<close>
  divides \<open>10 ^ E\<close>, and then it divides \<open>10 ^ e\<close> for some \<open>e\<close> below \<open>d\<close>. The integers and
  the binary fractions, and so the binary64 numbers, are among them.
\<close>

lemma decimal_exponent_finds:
  "e0 \<le> e \<Longrightarrow> e < e0 + n \<Longrightarrow> of_int \<lfloor>q * 10 ^ e\<rfloor> = q * 10 ^ e \<Longrightarrow>
   decimal_exponent n q e0 \<noteq> None"
proof (induct n arbitrary: e0)
  case 0
  then show ?case by simp
next
  case (Suc n)
  show ?case
  proof (cases "of_int \<lfloor>q * 10 ^ e0\<rfloor> = q * 10 ^ e0")
    case True
    then show ?thesis by simp
  next
    case False
    with Suc.prems have "e \<noteq> e0"
      by auto
    with Suc.prems have "Suc e0 \<le> e" "e < Suc e0 + n"
      by simp_all
    then have "decimal_exponent n q (Suc e0) \<noteq> None"
      using Suc.prems(3) by (rule Suc.hyps)
    with False show ?thesis by simp
  qed
qed

lemma dvd_power_of_ten:
  fixes d :: nat
  shows "0 < d \<Longrightarrow> d dvd 10 ^ E \<Longrightarrow> \<exists>e<d. d dvd 10 ^ e"
proof (induct d rule: less_induct)
  case (less d)
  show ?case
  proof (cases "d = 1")
    case True
    then show ?thesis by auto
  next
    case False
    define g where "g = gcd d 10"
    have "g \<noteq> 1"
    proof
      assume "g = 1"
      then have "coprime d 10"
        by (simp add: g_def coprime_iff_gcd_eq_1)
      then have "coprime d (10 ^ E)"
        by simp
      then have "d = 1"
        using dvd_refl less.prems(2) by (rule coprime_common_divisor_nat)
      with False show False by simp
    qed
    moreover have "g \<noteq> 0"
      using less.prems(1) by (simp add: g_def)
    ultimately have g: "2 \<le> g"
      by simp
    have gd: "g dvd d" and gt: "g dvd 10"
      by (simp_all add: g_def)
    define d' where "d' = d div g"
    have d: "d = d' * g"
      using gd by (simp add: d'_def)
    from less.prems(1) have pos: "0 < d'"
      unfolding d by simp
    with g have "d' * 1 < d' * g"
      by (intro mult_strict_left_mono) simp_all
    then have small: "d' < d"
      unfolding d by simp
    have "d' dvd d"
      unfolding d by simp
    then have "d' dvd 10 ^ E"
      using less.prems(2) by (rule dvd_trans)
    with less.hyps [OF small pos] obtain e' where e': "e' < d'" "d' dvd 10 ^ e'"
      by blast
    from e'(2) gt have "d' * g dvd 10 ^ e' * 10"
      by (rule mult_dvd_mono)
    then have "d dvd 10 ^ Suc e'"
      by (simp add: d mult.commute)
    moreover from e'(1) small have "Suc e' < d"
      by simp
    ultimately show ?thesis
      by blast
  qed
qed

lemma exponent_of_decimal:
  assumes "of_int \<lfloor>q * 10 ^ E\<rfloor> = q * 10 ^ E"
  shows "exponent_of q \<noteq> None"
proof -
  obtain a d where qo: "quotient_of q = (a, d)"
    by (cases "quotient_of q")
  have d: "0 < d"
    using qo by (rule quotient_of_denom_pos)
  have cop: "coprime a d"
    using qo by (rule quotient_of_coprime)
  have q: "q = of_int a / of_int d"
    using qo by (rule quotient_of_div)
  define z where "z = \<lfloor>q * 10 ^ E\<rfloor>"
  define dn where "dn = nat d"
  have dn: "int dn = d" "0 < dn"
    using d by (simp_all add: dn_def)
  from assms have "(of_int z :: rat) = of_int a * 10 ^ E / of_int d"
    by (simp add: z_def q)
  with d have "(of_int z :: rat) * of_int d = of_int a * 10 ^ E"
    by (simp add: field_simps)
  then have "(of_int (z * d) :: rat) = of_int (a * 10 ^ E)"
    by simp
  then have "z * d = a * 10 ^ E"
    by (simp only: of_int_eq_iff)
  then have "d dvd a * 10 ^ E"
    by (metis dvd_triv_right)
  moreover have "coprime d a"
    using cop by (simp add: coprime_commute)
  ultimately have "d dvd 10 ^ E"
    by (simp add: coprime_dvd_mult_right_iff)
  then have "int dn dvd int (10 ^ E)"
    by (simp add: dn)
  then have "dn dvd 10 ^ E"
    by (simp only: int_dvd_int_iff)
  with dn(2) obtain e where e: "e < dn" "dn dvd 10 ^ e"
    using dvd_power_of_ten by blast
  from e(2) obtain c where c: "10 ^ e = dn * c"
    by (auto simp add: dvd_def)
  then have "(10 :: rat) ^ e = of_nat (dn * c)"
    by (metis of_nat_numeral of_nat_power)
  then have "(10 :: rat) ^ e = of_int d * of_nat c"
    using dn(1) by (metis of_int_of_nat_eq of_nat_mult)
  with d have "q * 10 ^ e = of_int (a * int c)"
    by (simp add: q)
  then have "of_int \<lfloor>q * 10 ^ e\<rfloor> = q * 10 ^ e"
    by (simp only: floor_of_int)
  with e(1) have "decimal_exponent dn q 0 \<noteq> None"
    by (intro decimal_exponent_finds [of 0 e]) simp_all
  then show ?thesis
    by (simp add: exponent_of_def qo dn_def)
qed

lemma exponent_of_binary: "exponent_of (of_int m / 2 ^ j) \<noteq> None"
proof -
  have "(of_int m / 2 ^ j) * 10 ^ j = (of_int (m * 5 ^ j) :: rat)"
  proof -
    have "(10 :: rat) ^ j = 2 ^ j * 5 ^ j"
      by (simp flip: power_mult_distrib)
    then show ?thesis
      by simp
  qed
  then have "of_int \<lfloor>(of_int m / 2 ^ j :: rat) * 10 ^ j\<rfloor> = (of_int m / 2 ^ j :: rat) * 10 ^ j"
    by (simp only: floor_of_int)
  then show ?thesis
    by (rule exponent_of_decimal)
qed

lemma exponent_of_integer: "exponent_of (of_int m) \<noteq> None"
  using exponent_of_binary [of m 0] by simp

subsection \<open>Fuel\<close>

lemma parse_value_more:
  "parse_value n s = Some (v, r) \<Longrightarrow> 2 * length s + 1 \<le> m \<Longrightarrow> parse_value m s = Some (v, r)"
  using parse_fuel [of n] by blast

lemma parse_elements_more:
  "parse_elements n s = Some (vs, r) \<Longrightarrow> 2 * length s + 2 \<le> m \<Longrightarrow>
   parse_elements m s = Some (vs, r)"
  using parse_fuel [of n] by blast

lemma parse_members_more:
  "parse_members n s = Some (ms, r) \<Longrightarrow> 2 * length s + 2 \<le> m \<Longrightarrow>
   parse_members m s = Some (ms, r)"
  using parse_fuel [of n] by blast

lemma skip_ws_opens: "\<not> json_ws c \<Longrightarrow> skip_ws (c # cs) = c # cs"
  by (simp add: skip_ws_def)

lemma skip_ws_stops: "stops t \<Longrightarrow> skip_ws t = t"
  by (cases t) (auto simp add: stops_def skip_ws_def json_ws_def)

subsection \<open>Scalars\<close>

lemma parse_value_null: "parse_value (Suc n) (ustr ''null'' @ t) = Some (JNull, t)"
  by (simp add: parse_value_Suc ustr_def skip_ws_def json_ws_def is_prefix_def)

lemma parse_value_true: "parse_value (Suc n) (ustr ''true'' @ t) = Some (JBool True, t)"
  by (simp add: parse_value_Suc ustr_def skip_ws_def json_ws_def is_prefix_def)

lemma parse_value_false: "parse_value (Suc n) (ustr ''false'' @ t) = Some (JBool False, t)"
  by (simp add: parse_value_Suc ustr_def skip_ws_def json_ws_def is_prefix_def)

lemma parse_value_string: "parse_value (Suc n) (quote s @ t) = Some (JStr s, t)"
  by (simp add: parse_value_Suc quote_def skip_ws_def json_ws_def parse_string_body_quote_body)

lemma number_start:
  assumes "c = 0x2D \<or> is_digit c"
  shows "\<not> json_ws c" "c \<noteq> 0x7B" "c \<noteq> 0x5B" "c \<noteq> 0x22" "\<not> is_prefix (ustr ''true'') (c # cs)"
    "\<not> is_prefix (ustr ''false'') (c # cs)" "\<not> is_prefix (ustr ''null'') (c # cs)"
  using assms by (auto simp add: json_ws_def is_digit_def is_prefix_def ustr_def)

lemma parse_value_number:
  assumes "exponent_of q = Some e" and "stops t"
  shows "parse_value (Suc n) (number_text q @ t) = Some (JNum q, t)"
proof -
  from number_text_first [OF assms(1)] obtain c cs
    where split: "number_text q = c # cs" and c: "c = 0x2D \<or> is_digit c"
    by blast
  have "parse_number (c # cs @ t) = Some (q, t)"
    using parse_number_number_text [OF assms] by (simp add: split)
  then show ?thesis
    using number_start [OF c]
    by (simp add: parse_value_Suc split skip_ws_opens del: parse_string_body.simps)
qed

subsection \<open>Arrays and objects\<close>

lemma serialise_first:
  "\<exists>c cs. serialise v = c # cs \<and> \<not> json_ws c \<and> c \<noteq> 0x5D \<and> c \<noteq> 0x7D"
proof (cases v)
  case (JNum q)
  show ?thesis
  proof (cases "exponent_of q")
    case None
    with JNum show ?thesis
      by (simp add: number_text_def ustr_def json_ws_def)
  next
    case (Some e)
    from number_text_first [OF Some] obtain c cs
      where "number_text q = c # cs" and "c = 0x2D \<or> is_digit c"
      by blast
    with JNum show ?thesis
      by (auto simp add: json_ws_def is_digit_def)
  qed
qed (simp_all add: ustr_def json_ws_def quote_def)

lemma commas_first:
  assumes "vs \<noteq> []"
  shows "\<exists>c cs. commas (map serialise vs) = c # cs \<and> \<not> json_ws c \<and> c \<noteq> 0x5D \<and> c \<noteq> 0x7D"
proof -
  from assms obtain v ws where vs: "vs = v # ws"
    by (cases vs) auto
  from serialise_first [of v] obtain c cs
    where "serialise v = c # cs" "\<not> json_ws c" "c \<noteq> 0x5D" "c \<noteq> 0x7D"
    by blast
  then show ?thesis
    by (cases ws) (simp_all add: vs)
qed

lemma parse_elements_commas:
  assumes "vs \<noteq> []"
    and "\<And>v t. v \<in> set vs \<Longrightarrow> stops t \<Longrightarrow> \<exists>n. parse_value n (serialise v @ t) = Some (v, t)"
  shows "\<exists>n. parse_elements n (commas (map serialise vs) @ 0x5D # rest) = Some (vs, rest)"
  using assms
proof (induct vs rule: list_nonempty_induct)
  case (single v)
  have "stops (0x5D # rest)"
    by (simp add: stops_def)
  with single.prems [of v "0x5D # rest"] obtain n
    where "parse_value n (serialise v @ 0x5D # rest) = Some (v, 0x5D # rest)"
    by auto
  then have "parse_elements (Suc n) (serialise v @ 0x5D # rest) = Some ([v], rest)"
    by (simp add: parse_elements_Suc skip_ws_def json_ws_def)
  then show ?case
    by auto
next
  case (cons v vs)
  define tail where "tail = commas (map serialise vs) @ 0x5D # rest"
  define whole where "whole = serialise v @ 0x2C # tail"
  from cons.hyps(1) have shape: "commas (map serialise (v # vs)) @ 0x5D # rest = whole"
    by (cases vs) (simp_all add: whole_def tail_def)
  from cons.hyps(2) cons.prems obtain n2 where "parse_elements n2 tail = Some (vs, rest)"
    unfolding tail_def by auto
  moreover have "2 * length tail + 2 \<le> 2 * length whole + 2"
    by (simp add: whole_def)
  ultimately have rest: "parse_elements (2 * length whole + 2) tail = Some (vs, rest)"
    by (rule parse_elements_more)
  have "stops (0x2C # tail)"
    by (simp add: stops_def)
  with cons.prems [of v "0x2C # tail"] obtain n1
    where "parse_value n1 whole = Some (v, 0x2C # tail)"
    unfolding whole_def by auto
  then have "parse_value (2 * length whole + 2) whole = Some (v, 0x2C # tail)"
    by (rule parse_value_more) simp
  with rest have "parse_elements (Suc (2 * length whole + 2)) whole = Some (v # vs, rest)"
    by (simp add: parse_elements_Suc skip_ws_def json_ws_def cons_fst_def)
  then show ?case
    unfolding shape by blast
qed

lemma parse_value_array:
  assumes "\<And>v t. v \<in> set vs \<Longrightarrow> stops t \<Longrightarrow> \<exists>n. parse_value n (serialise v @ t) = Some (v, t)"
  shows "\<exists>n. parse_value n (serialise (JArr vs) @ t) = Some (JArr vs, t)"
proof (cases "vs = []")
  case True
  then have "parse_value (Suc 0) (serialise (JArr vs) @ t) = Some (JArr vs, t)"
    by (simp add: parse_value_Suc skip_ws_def json_ws_def)
  then show ?thesis
    by blast
next
  case False
  from parse_elements_commas [OF False assms] obtain n
    where elements: "parse_elements n (commas (map serialise vs) @ 0x5D # t) = Some (vs, t)"
    by blast
  from commas_first [OF False] obtain c cs
    where first: "commas (map serialise vs) = c # cs" "\<not> json_ws c" "c \<noteq> 0x5D"
    by blast
  from elements first have "parse_value (Suc n) (0x5B # commas (map serialise vs) @ 0x5D # t) =
      Some (JArr vs, t)"
    by (simp add: parse_value_Suc skip_ws_def json_ws_def)
  then show ?thesis
    by auto
qed

lemma obj_put_fresh: "k \<notin> fst ` set kvs \<Longrightarrow> obj_put k v kvs = kvs @ [(k, v)]"
  by (induct kvs) auto

lemma foldl_obj_put:
  "distinct (map fst (acc @ ms)) \<Longrightarrow> foldl (\<lambda>kvs (k, v). obj_put k v kvs) acc ms = acc @ ms"
proof (induct ms arbitrary: acc)
  case Nil
  then show ?case by simp
next
  case (Cons m ms)
  obtain k v where m: "m = (k, v)"
    by (cases m)
  from Cons.prems have "k \<notin> fst ` set acc"
    by (auto simp add: m)
  then have "obj_put k v acc = acc @ [(k, v)]"
    by (rule obj_put_fresh)
  with Cons.hyps [of "acc @ [(k, v)]"] Cons.prems show ?case
    by (simp add: m)
qed

lemma obj_of_members_distinct: "distinct (map fst kvs) \<Longrightarrow> obj_of_members kvs = JObj kvs"
  using foldl_obj_put [of "[]" kvs] by (simp add: obj_of_members_def)

lemma parse_members_commas:
  assumes "kvs \<noteq> []"
    and "\<And>kv t. kv \<in> set kvs \<Longrightarrow> stops t \<Longrightarrow>
      \<exists>n. parse_value n (serialise (snd kv) @ t) = Some (snd kv, t)"
  shows "\<exists>n. parse_members n (commas (map member_text kvs) @ 0x7D # rest) = Some (kvs, rest)"
  using assms
proof (induct kvs rule: list_nonempty_induct)
  case (single kv)
  have "stops (0x7D # rest)"
    by (simp add: stops_def)
  with single.prems [of kv "0x7D # rest"] obtain n
    where "parse_value n (serialise (snd kv) @ 0x7D # rest) = Some (snd kv, 0x7D # rest)"
    by auto
  then have "parse_members (Suc n) (member_text kv @ 0x7D # rest) = Some ([kv], rest)"
    by (simp add: parse_members_Suc member_text_def quote_def skip_ws_def json_ws_def
        parse_string_body_quote_body del: parse_string_body.simps)
  then show ?case
    by auto
next
  case (cons kv kvs)
  define tail where "tail = commas (map member_text kvs) @ 0x7D # rest"
  define val where "val = serialise (snd kv) @ 0x2C # tail"
  define whole where "whole = quote (fst kv) @ 0x3A # val"
  from cons.hyps(1) have shape: "commas (map member_text (kv # kvs)) @ 0x7D # rest = whole"
    by (cases kvs) (simp_all add: whole_def val_def tail_def member_text_def)
  from cons.hyps(2) cons.prems obtain n2 where "parse_members n2 tail = Some (kvs, rest)"
    unfolding tail_def by auto
  moreover have "2 * length tail + 2 \<le> 2 * length whole + 2"
    by (simp add: whole_def val_def)
  ultimately have rest: "parse_members (2 * length whole + 2) tail = Some (kvs, rest)"
    by (rule parse_members_more)
  have "stops (0x2C # tail)"
    by (simp add: stops_def)
  with cons.prems [of kv "0x2C # tail"] obtain n1
    where "parse_value n1 val = Some (snd kv, 0x2C # tail)"
    unfolding val_def by auto
  then have "parse_value (2 * length whole + 2) val = Some (snd kv, 0x2C # tail)"
    by (rule parse_value_more) (simp add: whole_def)
  with rest have "parse_members (Suc (2 * length whole + 2)) whole = Some (kv # kvs, rest)"
    by (simp add: parse_members_Suc whole_def quote_def skip_ws_def json_ws_def
        parse_string_body_quote_body cons_fst_def del: parse_string_body.simps)
  then show ?case
    unfolding shape by blast
qed

lemma parse_value_object:
  assumes "\<And>kv t. kv \<in> set kvs \<Longrightarrow> stops t \<Longrightarrow>
      \<exists>n. parse_value n (serialise (snd kv) @ t) = Some (snd kv, t)"
    and "distinct (map fst kvs)"
  shows "\<exists>n. parse_value n (serialise (JObj kvs) @ t) = Some (JObj kvs, t)"
proof (cases "kvs = []")
  case True
  then have "parse_value (Suc 0) (serialise (JObj kvs) @ t) = Some (JObj kvs, t)"
    by (simp add: parse_value_Suc skip_ws_def json_ws_def)
  then show ?thesis
    by blast
next
  case False
  from parse_members_commas [OF False assms(1)] obtain n
    where members: "parse_members n (commas (map member_text kvs) @ 0x7D # t) = Some (kvs, t)"
    by blast
  from False obtain kv rest where "kvs = kv # rest"
    by (cases kvs) auto
  then obtain cs where first: "commas (map member_text kvs) = 0x22 # cs"
    by (cases rest) (simp_all add: member_text_def quote_def)
  have shape: "serialise (JObj kvs) = 0x7B # commas (map member_text kvs) @ [0x7D]"
    by (simp add: member_text_def [abs_def])
  from members first have "parse_value (Suc n) (0x7B # commas (map member_text kvs) @ 0x7D # t) =
      Some (JObj kvs, t)"
    by (simp add: parse_value_Suc skip_ws_def json_ws_def obj_of_members_distinct [OF assms(2)])
  then show ?thesis
    unfolding shape by auto
qed

subsection \<open>Every value\<close>

lemma parse_value_serialise:
  "json_value v \<Longrightarrow> stops t \<Longrightarrow> \<exists>n. parse_value n (serialise v @ t) = Some (v, t)"
proof (induct v arbitrary: t)
  case JNull
  have "parse_value (Suc 0) (serialise JNull @ t) = Some (JNull, t)"
    by (simp only: serialise.simps parse_value_null)
  then show ?case ..
next
  case (JBool b)
  have "parse_value (Suc 0) (serialise (JBool b) @ t) = Some (JBool b, t)"
    by (cases b) (simp_all only: serialise.simps parse_value_true parse_value_false if_True if_False)
  then show ?case ..
next
  case (JNum q)
  from JNum(1) obtain e where "exponent_of q = Some e"
    by (cases "exponent_of q") simp_all
  then have "parse_value (Suc 0) (number_text q @ t) = Some (JNum q, t)"
    using JNum(2) by (rule parse_value_number)
  then have "parse_value (Suc 0) (serialise (JNum q) @ t) = Some (JNum q, t)"
    by (simp only: serialise.simps)
  then show ?case ..
next
  case (JStr s)
  have "parse_value (Suc 0) (serialise (JStr s) @ t) = Some (JStr s, t)"
    by (simp only: serialise.simps parse_value_string)
  then show ?case ..
next
  case (JArr vs)
  have "\<exists>n. parse_value n (serialise v @ t') = Some (v, t')" if "v \<in> set vs" "stops t'" for v t'
  proof -
    from that(1) JArr(2) have "json_value v"
      by (simp add: list_all_iff)
    with that(1) show ?thesis
      using that(2) by (rule JArr(1))
  qed
  then show ?case
    by (rule parse_value_array)
next
  case (JObj kvs)
  have "\<exists>n. parse_value n (serialise (snd kv) @ t') = Some (snd kv, t')"
    if "kv \<in> set kvs" "stops t'" for kv t'
  proof -
    from that(1) JObj(2) have "json_value (snd kv)"
      by (simp add: list_all_iff)
    moreover have "snd kv \<in> Basic_BNFs.snds kv"
      by (cases kv) simp
    ultimately show ?thesis
      using that(2) by (intro JObj(1) [OF that(1)])
  qed
  moreover from JObj(2) have "distinct (map fst kvs)"
    by simp
  ultimately show ?case
    by (rule parse_value_object)
qed

lemma JSON_parse_serialise:
  assumes "json_value v"
  shows "JSON_parse (serialise v) = Inr v"
proof -
  have "stops []"
    by (simp add: stops_def)
  with assms have "\<exists>n. parse_value n (serialise v @ []) = Some (v, [])"
    by (rule parse_value_serialise)
  then obtain n where "parse_value n (serialise v) = Some (v, [])"
    by auto
  then have "parse_value (2 * length (serialise v) + 2) (serialise v) = Some (v, [])"
    by (rule parse_value_more) simp
  then show ?thesis
    by (simp add: JSON_parse_def skip_ws_def)
qed

subsection \<open>The text is well-formed UTF-16\<close>

lemma well_formed_commas:
  assumes "\<And>x s. x \<in> set xs \<Longrightarrow> well_formed (x @ s) = well_formed s"
  shows "well_formed (commas xs @ s) = well_formed s"
  using assms
proof (induct xs rule: commas.induct)
  case 1
  then show ?case by simp
next
  case (2 x)
  then show ?case by simp
next
  case (3 x y ys)
  have "well_formed (x @ 0x2C # commas (y # ys) @ s) = well_formed (0x2C # commas (y # ys) @ s)"
    using 3(2) by simp
  also have "\<dots> = well_formed (commas (y # ys) @ s)"
    by (simp add: well_formed_Cons_plain plain_ascii del: well_formed.simps)
  also have "\<dots> = well_formed s"
    using 3 by simp
  finally show ?case
    by simp
qed

lemma well_formed_serialise_append: "well_formed (serialise v @ s) = well_formed s"
proof (induct v arbitrary: s)
  case JNull
  show ?case
    by (simp add: ustr_def well_formed_Cons_plain plain_ascii del: well_formed.simps)
next
  case (JBool b)
  show ?case
    by (simp add: ustr_def well_formed_Cons_plain plain_ascii del: well_formed.simps)
next
  case (JNum q)
  show ?case
    by (simp add: well_formed_number_text)
next
  case (JStr x)
  show ?case
    by (simp add: well_formed_quote)
next
  case (JArr vs)
  have "well_formed (commas (map serialise vs) @ 0x5D # s) = well_formed (0x5D # s)"
    using JArr by (intro well_formed_commas) auto
  then show ?case
    by (simp add: well_formed_Cons_plain plain_ascii del: well_formed.simps)
next
  case (JObj kvs)
  have "well_formed (member_text kv @ s') = well_formed s'" if "kv \<in> set kvs" for kv s'
  proof -
    have "snd kv \<in> Basic_BNFs.snds kv"
      by (cases kv) simp
    with that have "well_formed (serialise (snd kv) @ s') = well_formed s'"
      by (rule JObj)
    then show ?thesis
      by (simp add: member_text_def well_formed_quote well_formed_Cons_plain plain_ascii
          del: well_formed.simps)
  qed
  then have "well_formed (commas (map member_text kvs) @ 0x7D # s) = well_formed (0x7D # s)"
    by (intro well_formed_commas) auto
  then show ?case
    by (simp add: member_text_def [abs_def] well_formed_Cons_plain plain_ascii
        del: well_formed.simps)
qed

lemma well_formed_serialise: "well_formed (serialise v)"
  using well_formed_serialise_append [of v "[]"] by simp

section \<open>The round trip of the pipeline\<close>

text \<open>
  C2. For every JSON value \<open>v\<close> and every key string \<open>k\<close>: serialise \<open>v\<close>, encode the text
  in UTF-8 and encrypt it with AES-128-CBC and PKCS#7 under the key derived from \<open>k\<close>,
  as key and as IV; then \<open>decryptB64\<close> followed by \<open>JSON.parse\<close> turns the ciphertext
  back into \<open>v\<close>, and so does \<open>decryptPayload\<close> with \<open>k\<close> supplied (a \<open>k\<close> that is not empty),
  without touching the store.
\<close>

theorem decrypt_encrypt_round_trip:
  assumes "json_value v"
  shows "\<exists>c. encryptPayload e v (JStr k) = Inr c
           \<and> (case decryptB64 e c (JStr k) of
                 Inl err \<Rightarrow> Inl err
               | Inr decrypted \<Rightarrow> JSON_parse decrypted) = Inr v
           \<and> (k \<noteq> [] \<longrightarrow> decryptPayload e f now st c (JStr k) = (Inr v, st))"
proof -
  from deriveKeyFromSec_string obtain key
    where key: "deriveKeyFromSec e (JStr k) = Inr key" and len: "length key = 16"
    by blast
  define p where "p = utf8_encode (serialise v)"
  define c where "c = base64_encode (aes_128_cbc_encrypt key key p)"
  have enc: "encryptPayload e v (JStr k) = Inr c"
    by (simp add: encryptPayload_def encryptB64_def key c_def p_def)
  have "c \<noteq> []"
    unfolding c_def using len by (intro base64_encode_nonempty aes_128_cbc_round_trip)
  then have "decryptB64 e c (JStr k) = Inr (utf8_decode p)"
    using len by (simp add: decryptB64_def key c_def base64_decode_base64_encode
        aes_128_cbc_round_trip)
  moreover have "utf8_decode p = serialise v"
    unfolding p_def using well_formed_serialise by (rule utf8_decode_utf8_encode)
  ultimately have dec: "decryptB64 e c (JStr k) = Inr (serialise v)"
    by simp
  have "JSON_parse (serialise v) = Inr v"
    using assms by (rule JSON_parse_serialise)
  with enc dec show ?thesis
    by (auto simp add: decryptPayload_def)
qed

text \<open>Witness: the value
  \<open>{"ok": true, "n": [5315, 2.5, -0.001, null], "s": "\<dots>"}\<close> under the key \<open>QUJD\<close>, where the
  string holds \<open>e\<close> with an acute accent, a line feed, a quote, a surrogate pair and a
  surrogate without partner.\<close>

theorem decrypt_encrypt_round_trip_witness:
  "json_value sample_value
   \<and> (\<exists>c. encryptPayload default_env sample_value (JStr (ustr ''QUJD'')) = Inr c
         \<and> (case decryptB64 default_env c (JStr (ustr ''QUJD'')) of
               Inl err \<Rightarrow> Inl err
             | Inr decrypted \<Rightarrow> JSON_parse decrypted) = Inr sample_value
         \<and> decryptPayload default_env (\<lambda>u. Inr down_response) 1000 initial_store c
             (JStr (ustr ''QUJD'')) =
           (Inr sample_value, initial_store))"
proof -
  have good: "json_value sample_value"
    by code_simp
  have "ustr ''QUJD'' \<noteq> []"
    by (simp add: ustr_def)
  with decrypt_encrypt_round_trip [OF good, of default_env "ustr ''QUJD''"
      "\<lambda>u. Inr down_response" 1000 initial_store] good
  show ?thesis by blast
qed


end
